theory Spec2Isabelle
  imports Main "HOL-Library.FSet" "HOL-Library.Multiset" "HOL-Library.AList"
begin

section \<open>Data model\<close>

text \<open>
  Python sets and frozensets are finite, so a marking and a precondition or postcondition
  set is an \<open>'p fset\<close>. The visited set is a finite set of markings and the frontier
  (a \<open>collections.deque\<close>) is a list whose head is its left end.

  The record of one transition is the Python dictionary \<open>{'pre': ..., 'post': ...}\<close>: a map
  from the key string to a set. Subscripting a dictionary with a key it lacks raises
  \<open>KeyError\<close> with that key, which is a value of the model. The transition table is a
  Python dictionary iterated with \<open>.items()\<close>, that is, the list of its items in insertion
  order. \<open>TypeError\<close> stands for the exception Python raises when an object is not of the
  kind an operation needs; it arises in the model with an explicit store only.
\<close>

datatype 'k error = KeyError 'k | TypeError

type_synonym 'p marking = "'p fset"

type_synonym 'p t_info = "string \<rightharpoonup> 'p fset"

type_synonym ('t, 'p) transitions_dict = "('t \<times> 'p t_info) list"

section \<open>The reachability engine\<close>

text \<open>
  The body of \<open>for t_id, t_info in all_transitions.items()\<close> (source lines 74 to 90) for
  one dequeued marking, on the remaining items: the two subscripts, the enabled test
  \<open>pre_set.issubset(current_marking)\<close>, the firing and the test against \<open>visited\<close>.
  The state is the pair of the visited set and the queue, returned updated.
\<close>

fun for_transitions ::
  "'p marking \<Rightarrow> ('t, 'p) transitions_dict \<Rightarrow> 'p marking fset \<times> 'p marking list
    \<Rightarrow> string error + ('p marking fset \<times> 'p marking list)" where
  "for_transitions current_marking [] (visited, queue) = Inr (visited, queue)"
| "for_transitions current_marking ((t_id, t_info) # rest) (visited, queue) =
     (case t_info ''pre'' of
        None \<Rightarrow> Inl (KeyError ''pre'')
      | Some pre_set \<Rightarrow>
          (case t_info ''post'' of
             None \<Rightarrow> Inl (KeyError ''post'')
           | Some post_set \<Rightarrow>
               if pre_set |\<subseteq>| current_marking then
                 (let temp_marking = current_marking |-| pre_set;
                      next_marking_set = temp_marking |\<union>| post_set;
                      next_marking = next_marking_set
                  in if next_marking |\<notin>| visited
                     then for_transitions current_marking rest
                            (finsert next_marking visited, queue @ [next_marking])
                     else for_transitions current_marking rest (visited, queue))
               else for_transitions current_marking rest (visited, queue)))"

text \<open>
  The loop \<open>while queue:\<close> (source lines 71 to 90). It is a partial function: the value
  \<open>None\<close> stands for a run that never leaves the loop.
\<close>

partial_function (option) bfs_loop ::
  "('t, 'p) transitions_dict \<Rightarrow> 'p marking fset \<Rightarrow> 'p marking list
    \<Rightarrow> (string error + 'p marking fset) option" where
  "bfs_loop all_transitions visited queue =
     (case queue of
        [] \<Rightarrow> Some (Inr visited)
      | current_marking # queue' \<Rightarrow>
          (case for_transitions current_marking all_transitions (visited, queue') of
             Inl e \<Rightarrow> Some (Inl e)
           | Inr (visited', queue'') \<Rightarrow> bfs_loop all_transitions visited' queue''))"

declare bfs_loop.simps [code]

definition find_reachable_markings_bfs ::
  "'p fset \<Rightarrow> ('t, 'p) transitions_dict \<Rightarrow> (string error + 'p marking fset) option" where
  "find_reachable_markings_bfs start_marking all_transitions =
     (let initial_state = start_marking;
          visited = finsert initial_state {||};
          queue = [] @ [initial_state]
      in bfs_loop all_transitions visited queue)"

section \<open>The reachability engine on an explicit store\<close>

text \<open>
  The claim that the engine leaves its arguments unchanged is about mutation, so the
  function is modelled a second time, statement by statement, over a store of objects.
  An address is an index of the store. The mutable objects of a run are the sets of place
  identifiers (\<open>start_marking\<close>, every \<open>pre\<close> and \<open>post\<close> set), the dictionary of one
  transition (its two keys hold the addresses of the sets), the transition table (its items
  hold the addresses of those dictionaries), the \<open>visited\<close> set and the \<open>queue\<close>. A
  frozenset is immutable and is a value. Reading an address that holds an object of another
  kind raises \<open>TypeError\<close>.
\<close>

datatype ('t, 'p) py_obj =
    SetObj "'p fset"
  | InfoObj "string \<rightharpoonup> nat"
  | TableObj "('t \<times> nat) list"
  | VisitedObj "'p fset fset"
  | DequeObj "'p fset list"

type_synonym ('t, 'p) heap = "('t, 'p) py_obj list"

definition deref :: "('t, 'p) heap \<Rightarrow> nat \<Rightarrow> ('t, 'p) py_obj option" where
  "deref h a = (if a < length h then Some (h ! a) else None)"

definition get_set :: "('t, 'p) heap \<Rightarrow> nat \<Rightarrow> string error + 'p fset" where
  "get_set h a = (case deref h a of Some (SetObj s) \<Rightarrow> Inr s | _ \<Rightarrow> Inl TypeError)"

definition get_info :: "('t, 'p) heap \<Rightarrow> nat \<Rightarrow> string error + (string \<rightharpoonup> nat)" where
  "get_info h a = (case deref h a of Some (InfoObj m) \<Rightarrow> Inr m | _ \<Rightarrow> Inl TypeError)"

definition get_table :: "('t, 'p) heap \<Rightarrow> nat \<Rightarrow> string error + ('t \<times> nat) list" where
  "get_table h a = (case deref h a of Some (TableObj items) \<Rightarrow> Inr items | _ \<Rightarrow> Inl TypeError)"

definition get_visited :: "('t, 'p) heap \<Rightarrow> nat \<Rightarrow> string error + 'p fset fset" where
  "get_visited h a = (case deref h a of Some (VisitedObj v) \<Rightarrow> Inr v | _ \<Rightarrow> Inl TypeError)"

definition get_deque :: "('t, 'p) heap \<Rightarrow> nat \<Rightarrow> string error + 'p fset list" where
  "get_deque h a = (case deref h a of Some (DequeObj q) \<Rightarrow> Inr q | _ \<Rightarrow> Inl TypeError)"

text \<open>
  \<open>set()\<close> and \<open>collections.deque()\<close> create a new object at a fresh address;
  \<open>visited.add(x)\<close> and \<open>queue.append(x)\<close> update the object at their address.
\<close>

definition alloc :: "('t, 'p) heap \<Rightarrow> ('t, 'p) py_obj \<Rightarrow> ('t, 'p) heap \<times> nat" where
  "alloc h ob = (h @ [ob], length h)"

definition visited_add ::
  "('t, 'p) heap \<Rightarrow> nat \<Rightarrow> 'p fset \<Rightarrow> ('t, 'p) heap \<times> (string error + unit)" where
  "visited_add h a x =
     (case get_visited h a of
        Inl e \<Rightarrow> (h, Inl e)
      | Inr v \<Rightarrow> (h[a := VisitedObj (finsert x v)], Inr ()))"

definition deque_append ::
  "('t, 'p) heap \<Rightarrow> nat \<Rightarrow> 'p fset \<Rightarrow> ('t, 'p) heap \<times> (string error + unit)" where
  "deque_append h a x =
     (case get_deque h a of
        Inl e \<Rightarrow> (h, Inl e)
      | Inr q \<Rightarrow> (h[a := DequeObj (q @ [x])], Inr ()))"

text \<open>
  The \<open>for\<close> loop (source lines 74 to 90) on the store: \<open>t_info\<close>, \<open>pre_set\<close> and
  \<open>post_set\<close> are addresses, \<open>visited\<close> and \<open>queue\<close> the addresses of the two local
  objects. \<open>issubset\<close>, \<open>-\<close> and \<open>|\<close> read their operands and build new frozensets.
\<close>

fun for_transitions_heap ::
  "'p fset \<Rightarrow> ('t \<times> nat) list \<Rightarrow> nat \<Rightarrow> nat \<Rightarrow> ('t, 'p) heap
     \<Rightarrow> ('t, 'p) heap \<times> (string error + unit)" where
  "for_transitions_heap current_marking [] visited queue h = (h, Inr ())"
| "for_transitions_heap current_marking ((t_id, t_info) # rest) visited queue h =
     (case get_info h t_info of
        Inl e \<Rightarrow> (h, Inl e)
      | Inr info \<Rightarrow>
     (case info ''pre'' of
        None \<Rightarrow> (h, Inl (KeyError ''pre''))
      | Some pre_set \<Rightarrow>
     (case info ''post'' of
        None \<Rightarrow> (h, Inl (KeyError ''post''))
      | Some post_set \<Rightarrow>
     (case get_set h pre_set of
        Inl e \<Rightarrow> (h, Inl e)
      | Inr pre_contents \<Rightarrow>
          if pre_contents |\<subseteq>| current_marking then
            (let temp_marking = current_marking |-| pre_contents in
             case get_set h post_set of
               Inl e \<Rightarrow> (h, Inl e)
             | Inr post_contents \<Rightarrow>
                 (let next_marking = temp_marking |\<union>| post_contents in
                  case get_visited h visited of
                    Inl e \<Rightarrow> (h, Inl e)
                  | Inr seen \<Rightarrow>
                      if next_marking |\<notin>| seen then
                        (case visited_add h visited next_marking of
                           (h1, Inl e) \<Rightarrow> (h1, Inl e)
                         | (h1, Inr _) \<Rightarrow>
                             (case deque_append h1 queue next_marking of
                                (h2, Inl e) \<Rightarrow> (h2, Inl e)
                              | (h2, Inr _) \<Rightarrow>
                                  for_transitions_heap current_marking rest visited queue h2))
                      else for_transitions_heap current_marking rest visited queue h))
          else for_transitions_heap current_marking rest visited queue h))))"

text \<open>The \<open>while\<close> loop on the store; \<open>queue.popleft()\<close> updates the deque.\<close>

partial_function (option) bfs_loop_heap ::
  "nat \<Rightarrow> nat \<Rightarrow> nat \<Rightarrow> ('t, 'p) heap \<Rightarrow> (('t, 'p) heap \<times> (string error + unit)) option" where
  "bfs_loop_heap all_transitions visited queue h =
     (case get_deque h queue of
        Inl e \<Rightarrow> Some (h, Inl e)
      | Inr [] \<Rightarrow> Some (h, Inr ())
      | Inr (current_marking # q') \<Rightarrow>
          (let h1 = h[queue := DequeObj q'] in
           case get_table h1 all_transitions of
             Inl e \<Rightarrow> Some (h1, Inl e)
           | Inr items \<Rightarrow>
               (case for_transitions_heap current_marking items visited queue h1 of
                  (h2, Inl e) \<Rightarrow> Some (h2, Inl e)
                | (h2, Inr _) \<Rightarrow> bfs_loop_heap all_transitions visited queue h2)))"

declare bfs_loop_heap.simps [code]

text \<open>
  The whole function on the store: it returns the final store and the address of the
  \<open>visited\<close> set, or the exception raised.
\<close>

definition find_reachable_markings_bfs_heap ::
  "('t, 'p) heap \<Rightarrow> nat \<Rightarrow> nat \<Rightarrow> (('t, 'p) heap \<times> (string error + nat)) option" where
  "find_reachable_markings_bfs_heap h start_marking all_transitions =
     (case get_set h start_marking of
        Inl e \<Rightarrow> Some (h, Inl e)
      | Inr initial_state \<Rightarrow>
          (let (h1, visited) = alloc h (VisitedObj {||});
               (h2, queue) = alloc h1 (DequeObj [])
           in case visited_add h2 visited initial_state of
                (h3, Inl e) \<Rightarrow> Some (h3, Inl e)
              | (h3, Inr _) \<Rightarrow>
                  (case deque_append h3 queue initial_state of
                     (h4, Inl e) \<Rightarrow> Some (h4, Inl e)
                   | (h4, Inr _) \<Rightarrow>
                       (case bfs_loop_heap all_transitions visited queue h4 of
                          None \<Rightarrow> None
                        | Some (h5, Inl e) \<Rightarrow> Some (h5, Inl e)
                        | Some (h5, Inr _) \<Rightarrow> Some (h5, Inr visited)))))"

section \<open>The structural adapter\<close>

text \<open>
  Modelled from the spec: the Net Model, the \<open>PetriNet\<close> object of the parser module
  \<open>pnml_parser\<close>, whose source is not among the files. As the adapter reads it:
  \<open>net.places\<close> is a dictionary from identifier to a place with the fields \<open>id\<close>
  (here \<open>place_id\<close>) and \<open>initial_marking\<close>, \<open>net.transitions\<close> is a dictionary keyed
  by transition identifier, and \<open>net.arcs\<close> is a sequence of arcs with the fields
  \<open>source\<close> and \<open>target\<close>. A dictionary is the list of its items in insertion order.
\<close>

record 'a Place =
  place_id :: 'a
  initial_marking :: int

record 'a Arc =
  source :: 'a
  target :: 'a

record ('a, 'tr) PetriNet =
  places :: "('a \<times> 'a Place) list"
  transitions :: "('a \<times> 'tr) list"
  arcs :: "'a Arc list"

text \<open>
  The loop \<open>for t_id in net.transitions.keys()\<close> (source lines 29 and 30): the assignment
  \<open>transitions_dict[t_id] = ...\<close> replaces the value of a key the dictionary has and
  appends the key otherwise, which is \<open>AList.update\<close>.
\<close>

fun init_transitions_dict ::
  "'a list \<Rightarrow> ('a, 'a) transitions_dict \<Rightarrow> ('a, 'a) transitions_dict" where
  "init_transitions_dict [] transitions_dict = transitions_dict"
| "init_transitions_dict (t_id # rest) transitions_dict =
     init_transitions_dict rest
       (AList.update t_id [''pre'' \<mapsto> {||}, ''post'' \<mapsto> {||}] transitions_dict)"

text \<open>
  The statement \<open>transitions_dict[t_id][key].add(p)\<close> (source lines 38 and 42): two
  subscripts, each raising \<open>KeyError\<close> on a missing key, then the insertion into the set.
\<close>

definition set_add ::
  "('a, 'a) transitions_dict \<Rightarrow> 'a \<Rightarrow> string \<Rightarrow> 'a
     \<Rightarrow> ('a + string) error + ('a, 'a) transitions_dict" where
  "set_add transitions_dict t_id key p =
     (case map_of transitions_dict t_id of
        None \<Rightarrow> Inl (KeyError (Inl t_id))
      | Some t_info \<Rightarrow>
          (case t_info key of
             None \<Rightarrow> Inl (KeyError (Inr key))
           | Some s \<Rightarrow> Inr (AList.update t_id (t_info(key \<mapsto> finsert p s)) transitions_dict)))"

text \<open>The loop \<open>for arc in net.arcs\<close> (source lines 32 to 42), with its \<open>if\<close> and \<open>elif\<close>.\<close>

fun for_arcs ::
  "('a, 'tr) PetriNet \<Rightarrow> 'a Arc list \<Rightarrow> ('a, 'a) transitions_dict
     \<Rightarrow> ('a + string) error + ('a, 'a) transitions_dict" where
  "for_arcs net [] transitions_dict = Inr transitions_dict"
| "for_arcs net (arc # rest) transitions_dict =
     (let source_id = source arc; target_id = target arc in
      if map_of (places net) source_id \<noteq> None \<and> map_of (transitions net) target_id \<noteq> None
      then (case set_add transitions_dict target_id ''pre'' source_id of
              Inl e \<Rightarrow> Inl e
            | Inr transitions_dict' \<Rightarrow> for_arcs net rest transitions_dict')
      else if map_of (transitions net) source_id \<noteq> None \<and> map_of (places net) target_id \<noteq> None
      then (case set_add transitions_dict source_id ''post'' target_id of
              Inl e \<Rightarrow> Inl e
            | Inr transitions_dict' \<Rightarrow> for_arcs net rest transitions_dict')
      else for_arcs net rest transitions_dict)"

definition convert_net_to_bfs_format ::
  "('a, 'tr) PetriNet \<Rightarrow> ('a + string) error + ('a fset \<times> ('a, 'a) transitions_dict)" where
  "convert_net_to_bfs_format net =
     (let initial_marking_set =
            fset_of_list (map place_id (filter (\<lambda>p. initial_marking p > 0) (map snd (places net))));
          transitions_dict = init_transitions_dict (map fst (transitions net)) []
      in case for_arcs net (arcs net) transitions_dict of
           Inl e \<Rightarrow> Inl e
         | Inr transitions_dict' \<Rightarrow> Inr (initial_marking_set, transitions_dict'))"

section \<open>Instrumented and generalised loops\<close>

text \<open>
  The same loop with a ghost list: every marking taken from the queue is appended to
  \<open>expanded\<close>, so that the run's sequence of expansions can be stated. Nothing else
  differs from \<open>bfs_loop\<close>.
\<close>

partial_function (option) bfs_loop_traced ::
  "('t, 'p) transitions_dict \<Rightarrow> 'p marking fset \<Rightarrow> 'p marking list \<Rightarrow> 'p marking list
    \<Rightarrow> (string error + 'p marking fset \<times> 'p marking list) option" where
  "bfs_loop_traced all_transitions visited queue expanded =
     (case queue of
        [] \<Rightarrow> Some (Inr (visited, expanded))
      | current_marking # queue' \<Rightarrow>
          (case for_transitions current_marking all_transitions (visited, queue') of
             Inl e \<Rightarrow> Some (Inl e)
           | Inr (visited', queue'') \<Rightarrow>
               bfs_loop_traced all_transitions visited' queue'' (expanded @ [current_marking])))"

declare bfs_loop_traced.simps [code]

definition find_reachable_markings_bfs_traced ::
  "'p fset \<Rightarrow> ('t, 'p) transitions_dict
    \<Rightarrow> (string error + 'p marking fset \<times> 'p marking list) option" where
  "find_reachable_markings_bfs_traced start_marking all_transitions =
     bfs_loop_traced all_transitions {|start_marking|} [start_marking] []"

text \<open>
  The specification speaks of replacing the FIFO frontier by another complete worklist
  discipline. The source has the FIFO only; this is the loop with the choice of the next
  marking left to a function \<open>pick\<close> of the pending list (its value is taken modulo
  the length). \<open>pick = (\<lambda>_. 0)\<close> is the FIFO of the source, and
  \<open>pick = (\<lambda>w. length w - 1)\<close> is a stack.
\<close>

partial_function (option) worklist_loop ::
  "('p marking list \<Rightarrow> nat) \<Rightarrow> ('t, 'p) transitions_dict \<Rightarrow> 'p marking fset
    \<Rightarrow> 'p marking list \<Rightarrow> (string error + 'p marking fset) option" where
  "worklist_loop pick all_transitions visited work =
     (if work = [] then Some (Inr visited)
      else
        (case for_transitions (work ! (pick work mod length work)) all_transitions
                (visited, take (pick work mod length work) work
                            @ drop (Suc (pick work mod length work)) work) of
           Inl e \<Rightarrow> Some (Inl e)
         | Inr (visited', work') \<Rightarrow> worklist_loop pick all_transitions visited' work'))"

declare worklist_loop.simps [code]

definition find_reachable_markings_worklist ::
  "('p marking list \<Rightarrow> nat) \<Rightarrow> 'p fset \<Rightarrow> ('t, 'p) transitions_dict
    \<Rightarrow> (string error + 'p marking fset) option" where
  "find_reachable_markings_worklist pick start_marking all_transitions =
     worklist_loop pick all_transitions {|start_marking|} [start_marking]"

section \<open>Specification: firing sequences and reachability\<close>

text \<open>
  A transition table is well formed when every transition is mapped to a precondition set
  and a postcondition set.
\<close>

definition wf_transitions :: "('t, 'p) transitions_dict \<Rightarrow> bool" where
  "wf_transitions ts =
     list_all (\<lambda>(t_id, t_info). t_info ''pre'' \<noteq> None \<and> t_info ''post'' \<noteq> None) ts"

text \<open>
  The firing rule in the words of the specification: a transition is enabled in a marking
  when its precondition set is a subset of the marking, and firing it yields
  \<open>(m \ pre) \<union> post\<close>.
\<close>

definition fires :: "'p t_info \<Rightarrow> 'p marking \<Rightarrow> 'p marking option" where
  "fires t_info m =
     (case (t_info ''pre'', t_info ''post'') of
        (Some pre_set, Some post_set) \<Rightarrow>
          if pre_set |\<subseteq>| m then Some ((m |-| pre_set) |\<union>| post_set) else None
      | _ \<Rightarrow> None)"

fun firing_sequence :: "'p marking \<Rightarrow> 'p t_info list \<Rightarrow> 'p marking option" where
  "firing_sequence m [] = Some m"
| "firing_sequence m (t_info # rest) =
     (case fires t_info m of None \<Rightarrow> None | Some m' \<Rightarrow> firing_sequence m' rest)"

text \<open>
  A marking is reachable when some finite sequence of transitions of the table, fired one
  after the other from the initial marking, produces it. The empty sequence gives the
  initial marking itself.
\<close>

definition reachable :: "('t, 'p) transitions_dict \<Rightarrow> 'p marking \<Rightarrow> 'p marking \<Rightarrow> bool" where
  "reachable ts m0 m =
     (\<exists>seq. set seq \<subseteq> snd ` set ts \<and> firing_sequence m0 seq = Some m)"

text \<open>The markings one firing away from a marking, in table order.\<close>

definition successors :: "'p marking \<Rightarrow> ('t, 'p) transitions_dict \<Rightarrow> 'p marking list" where
  "successors m ts = List.map_filter (\<lambda>(t_id, t_info). fires t_info m) ts"

text \<open>
  The places that can ever hold a token, and the places referenced anywhere in the net:
  the initial marking and every precondition and postcondition set.
\<close>

fun post_places :: "('t, 'p) transitions_dict \<Rightarrow> 'p fset" where
  "post_places [] = {||}"
| "post_places ((t_id, t_info) # rest) =
     (case t_info ''post'' of None \<Rightarrow> {||} | Some post_set \<Rightarrow> post_set) |\<union>| post_places rest"

fun referenced_places :: "'p fset \<Rightarrow> ('t, 'p) transitions_dict \<Rightarrow> 'p fset" where
  "referenced_places start_marking [] = start_marking"
| "referenced_places start_marking ((t_id, t_info) # rest) =
     (case t_info ''pre'' of None \<Rightarrow> {||} | Some pre_set \<Rightarrow> pre_set) |\<union>|
     (case t_info ''post'' of None \<Rightarrow> {||} | Some post_set \<Rightarrow> post_set) |\<union>|
     referenced_places start_marking rest"

text \<open>
  The invariant of the loop: the initial marking is visited, every visited marking is
  reachable, the pending markings are visited and pairwise different, the expanded ones are
  exactly the visited ones that are not pending, and every successor of an expanded marking
  is visited.
\<close>

definition bfs_inv ::
  "('t, 'p) transitions_dict \<Rightarrow> 'p marking \<Rightarrow> 'p marking fset \<Rightarrow> 'p marking list
     \<Rightarrow> 'p marking list \<Rightarrow> bool" where
  "bfs_inv ts m0 V Q tr \<longleftrightarrow>
     m0 |\<in>| V \<and> (\<forall>m. m |\<in>| V \<longrightarrow> reachable ts m0 m) \<and>
     distinct Q \<and> distinct tr \<and> set tr = fset V - set Q \<and> set Q \<subseteq> fset V \<and>
     (\<forall>m. m \<in> set tr \<longrightarrow> set (successors m ts) \<subseteq> fset V)"

text \<open>
  Reading the adapter's result: which identifiers name a place or a transition, the places
  the arcs give to a transition's precondition and postcondition set, and the invariant of
  the loop over the arcs.
\<close>

definition is_place :: "('a, 'tr) PetriNet \<Rightarrow> 'a \<Rightarrow> bool" where
  "is_place net x = (x \<in> fst ` set (places net))"

definition is_transition :: "('a, 'tr) PetriNet \<Rightarrow> 'a \<Rightarrow> bool" where
  "is_transition net x = (x \<in> fst ` set (transitions net))"

definition pre_arcs :: "('a, 'tr) PetriNet \<Rightarrow> 'a Arc list \<Rightarrow> 'a \<Rightarrow> 'a fset" where
  "pre_arcs net as t =
     fset_of_list (map source
       (filter (\<lambda>a. is_place net (source a) \<and> is_transition net (target a) \<and> target a = t) as))"

definition post_arcs :: "('a, 'tr) PetriNet \<Rightarrow> 'a Arc list \<Rightarrow> 'a \<Rightarrow> 'a fset" where
  "post_arcs net as t =
     fset_of_list (map target
       (filter (\<lambda>a. \<not> (is_place net (source a) \<and> is_transition net (target a))
                  \<and> is_transition net (source a) \<and> is_place net (target a) \<and> source a = t) as))"

definition table_inv ::
  "('a, 'tr) PetriNet \<Rightarrow> 'a Arc list \<Rightarrow> ('a, 'a) transitions_dict \<Rightarrow> bool" where
  "table_inv net as d \<longleftrightarrow>
     distinct (map fst d) \<and>
     map_of d = (\<lambda>t. if is_transition net t
                     then Some [''pre'' \<mapsto> pre_arcs net as t, ''post'' \<mapsto> post_arcs net as t]
                     else None)"

text \<open>
  The sentence "each transition-to-place arc adds the place to that transition's
  postcondition set", read on a returned table.
\<close>

definition each_tp_arc_in_post ::
  "('a, 'tr) PetriNet \<Rightarrow> ('a, 'a) transitions_dict \<Rightarrow> bool" where
  "each_tp_arc_in_post net d \<longleftrightarrow>
     list_all (\<lambda>a. \<not> (is_transition net (source a) \<and> is_place net (target a)) \<or>
                (case map_of d (source a) of
                   None \<Rightarrow> False
                 | Some t_info \<Rightarrow>
                     (case t_info ''post'' of None \<Rightarrow> False | Some post_set \<Rightarrow> target a |\<in>| post_set)))
       (arcs net)"

text \<open>
  Reading the store: when its objects have the kinds the code expects (\<open>heap_ok\<close>), the
  set and the table an address stands for (\<open>start_of\<close>, \<open>table_of\<close>), and the relations
  between the store before and after a step.
\<close>

definition same_except :: "nat \<Rightarrow> nat \<Rightarrow> ('t, 'p) heap \<Rightarrow> ('t, 'p) heap \<Rightarrow> bool" where
  "same_except a b h h' \<longleftrightarrow>
     length h' = length h \<and> (\<forall>x. x \<noteq> a \<and> x \<noteq> b \<longrightarrow> h' ! x = h ! x)"

definition is_set :: "('t, 'p) heap \<Rightarrow> nat \<Rightarrow> bool" where
  "is_set h a = (case get_set h a of Inl _ \<Rightarrow> False | Inr _ \<Rightarrow> True)"

definition info_ok :: "('t, 'p) heap \<Rightarrow> nat \<Rightarrow> bool" where
  "info_ok h a =
     (case get_info h a of
        Inl _ \<Rightarrow> False
      | Inr m \<Rightarrow>
          (case (m ''pre'', m ''post'') of
             (Some a_pre, Some a_post) \<Rightarrow> is_set h a_pre \<and> is_set h a_post
           | _ \<Rightarrow> False))"

definition heap_ok :: "('t, 'p) heap \<Rightarrow> nat \<Rightarrow> nat \<Rightarrow> bool" where
  "heap_ok h a_start a_table =
     (is_set h a_start \<and>
      (case get_table h a_table of
         Inl _ \<Rightarrow> False
       | Inr items \<Rightarrow> list_all (\<lambda>(t_id, a_info). info_ok h a_info) items))"

definition info_of :: "('t, 'p) heap \<Rightarrow> nat \<Rightarrow> 'p t_info" where
  "info_of h a =
     (case get_info h a of
        Inl _ \<Rightarrow> Map.empty
      | Inr m \<Rightarrow>
          (\<lambda>k. case m k of
                 None \<Rightarrow> None
               | Some a_set \<Rightarrow> (case get_set h a_set of Inl _ \<Rightarrow> None | Inr s \<Rightarrow> Some s)))"

definition items_of :: "('t, 'p) heap \<Rightarrow> ('t \<times> nat) list \<Rightarrow> ('t, 'p) transitions_dict" where
  "items_of h items = map (\<lambda>(t_id, a_info). (t_id, info_of h a_info)) items"

definition start_of :: "('t, 'p) heap \<Rightarrow> nat \<Rightarrow> 'p fset" where
  "start_of h a = (case get_set h a of Inl _ \<Rightarrow> {||} | Inr s \<Rightarrow> s)"

definition table_of :: "('t, 'p) heap \<Rightarrow> nat \<Rightarrow> ('t, 'p) transitions_dict" where
  "table_of h a = (case get_table h a of Inl _ \<Rightarrow> [] | Inr items \<Rightarrow> items_of h items)"

definition scratch_obj :: "('t, 'p) py_obj \<Rightarrow> bool" where
  "scratch_obj ob = (case ob of VisitedObj _ \<Rightarrow> True | DequeObj _ \<Rightarrow> True | _ \<Rightarrow> False)"

definition heap_state ::
  "('t, 'p) heap \<Rightarrow> nat \<Rightarrow> nat \<Rightarrow> 'p fset fset \<Rightarrow> 'p fset list \<Rightarrow> bool" where
  "heap_state h av aq V Q \<longleftrightarrow>
     av < length h \<and> aq < length h \<and> h ! av = VisitedObj V \<and> h ! aq = DequeObj Q"

definition heap_result ::
  "(('t, 'p) heap \<times> (string error + unit)) option \<Rightarrow> (string error + ('t, 'p) heap) option" where
  "heap_result x = map_option (\<lambda>(h, r). case r of Inl e \<Rightarrow> Inl e | Inr _ \<Rightarrow> Inr h) x"

section \<open>The loop over the transitions\<close>

lemma wf_transitions_Cons:
  "wf_transitions ((t, info) # ts) \<longleftrightarrow>
     info ''pre'' \<noteq> None \<and> info ''post'' \<noteq> None \<and> wf_transitions ts"
  by (simp add: wf_transitions_def)

lemma successors_Nil: "successors m [] = []"
  by (simp add: successors_def map_filter_simps)

lemma successors_Cons:
  "successors m ((t, info) # ts) =
     (case fires info m of None \<Rightarrow> successors m ts | Some m' \<Rightarrow> m' # successors m ts)"
  by (simp add: successors_def map_filter_simps split: option.splits)

lemma for_transitions_wf:
  "wf_transitions ts \<Longrightarrow>
   \<exists>news. for_transitions cur ts (V, Q) = Inr (V |\<union>| fset_of_list news, Q @ news)
     \<and> distinct news \<and> set news = set (successors cur ts) - fset V"
proof (induction ts arbitrary: V Q)
  case Nil
  then show ?case by (simp add: successors_Nil)
next
  case (Cons a ts)
  obtain t info where a: "a = (t, info)" by (cases a)
  from Cons.prems a obtain pre post where
    pre: "info ''pre'' = Some pre" and post: "info ''post'' = Some post" and wf: "wf_transitions ts"
    by (auto simp: wf_transitions_Cons)
  show ?case
  proof (cases "pre |\<subseteq>| cur \<and> (cur |-| pre) |\<union>| post |\<notin>| V")
    case True
    let ?n = "(cur |-| pre) |\<union>| post"
    from Cons.IH[OF wf, of "finsert ?n V" "Q @ [?n]"] obtain news where
      n: "for_transitions cur ts (finsert ?n V, Q @ [?n])
            = Inr (finsert ?n V |\<union>| fset_of_list news, (Q @ [?n]) @ news)"
         "distinct news" "set news = set (successors cur ts) - fset (finsert ?n V)"
      by blast
    have "for_transitions cur (a # ts) (V, Q)
            = Inr (V |\<union>| fset_of_list (?n # news), Q @ (?n # news))"
      using True n(1) by (simp add: a pre post Let_def)
    moreover have "distinct (?n # news)" using n(2,3) by auto
    moreover have "set (?n # news) = set (successors cur (a # ts)) - fset V"
      using True n(3) by (auto simp: a successors_Cons fires_def pre post)
    ultimately show ?thesis by blast
  next
    case False
    from Cons.IH[OF wf, of V Q] obtain news where
      n: "for_transitions cur ts (V, Q) = Inr (V |\<union>| fset_of_list news, Q @ news)"
         "distinct news" "set news = set (successors cur ts) - fset V"
      by blast
    have "for_transitions cur (a # ts) (V, Q) = Inr (V |\<union>| fset_of_list news, Q @ news)"
      using False n(1) by (auto simp: a pre post Let_def)
    moreover have "set news = set (successors cur (a # ts)) - fset V"
      using False n(3) by (auto simp: a successors_Cons fires_def pre post)
    ultimately show ?thesis using n(2) by blast
  qed
qed

section \<open>Reachability\<close>

lemma fset_image_fPow: "fset ` fset (fPow A) = Pow (fset A)"
proof (intro set_eqI iffI)
  fix S assume "S \<in> fset ` fset (fPow A)"
  then show "S \<in> Pow (fset A)" by (auto simp: less_eq_fset.rep_eq)
next
  fix S assume "S \<in> Pow (fset A)"
  then have "finite S" by (auto intro: finite_subset)
  then obtain B where "fset B = S" by (metis finite_list fset_of_list.rep_eq)
  with \<open>S \<in> Pow (fset A)\<close> have "B |\<in>| fPow A" by (auto simp: less_eq_fset.rep_eq)
  with \<open>fset B = S\<close> show "S \<in> fset ` fset (fPow A)" by blast
qed

lemma fcard_fPow: "fcard (fPow A) = 2 ^ fcard A"
proof -
  have "card (fset ` fset (fPow A)) = card (fset (fPow A))"
    by (rule card_image) (simp add: inj_on_def fset_inject)
  then show ?thesis by (simp add: fcard.rep_eq fset_image_fPow card_Pow)
qed

lemma firing_sequence_append:
  "firing_sequence m (xs @ ys) =
     (case firing_sequence m xs of None \<Rightarrow> None | Some m' \<Rightarrow> firing_sequence m' ys)"
  by (induction xs arbitrary: m) (auto split: option.splits)

lemma in_successors:
  "m' \<in> set (successors m ts) \<longleftrightarrow> (\<exists>info \<in> snd ` set ts. fires info m = Some m')"
  by (induction ts) (auto simp: successors_Nil successors_Cons split: option.splits)

lemma reachable_init: "reachable ts m0 m0"
  unfolding reachable_def by (rule exI[of _ "[]"]) simp

lemma reachable_step:
  assumes "reachable ts m0 m" and "m' \<in> set (successors m ts)"
  shows "reachable ts m0 m'"
proof -
  from assms(1) obtain seq where s: "set seq \<subseteq> snd ` set ts" "firing_sequence m0 seq = Some m"
    unfolding reachable_def by blast
  from assms(2) obtain info where i: "info \<in> snd ` set ts" "fires info m = Some m'"
    unfolding in_successors by blast
  have "firing_sequence m0 (seq @ [info]) = Some m'"
    using s(2) i(2) by (simp add: firing_sequence_append)
  moreover have "set (seq @ [info]) \<subseteq> snd ` set ts" using s(1) i(1) by simp
  ultimately show ?thesis unfolding reachable_def by blast
qed

lemma closed_contains_reachable:
  assumes start: "m0 |\<in>| V"
    and closed: "\<And>m. m |\<in>| V \<Longrightarrow> set (successors m ts) \<subseteq> fset V"
    and r: "reachable ts m0 m"
  shows "m |\<in>| V"
proof -
  have "set seq \<subseteq> snd ` set ts \<Longrightarrow> firing_sequence m0 seq = Some m \<Longrightarrow> m |\<in>| V" for seq m
  proof (induction seq arbitrary: m rule: rev_induct)
    case Nil
    then show ?case using start by simp
  next
    case (snoc info seq)
    from snoc.prems(2) obtain m1 where
      m1: "firing_sequence m0 seq = Some m1" and f: "fires info m1 = Some m"
      by (auto simp: firing_sequence_append split: option.splits)
    have "m1 |\<in>| V" using snoc.IH[OF _ m1] snoc.prems(1) by simp
    moreover have "m \<in> set (successors m1 ts)"
      unfolding in_successors using f snoc.prems(1) by auto
    ultimately show ?case using closed by blast
  qed
  with r show ?thesis unfolding reachable_def by blast
qed

lemma post_places_mem_pair:
  "(t, info) \<in> set ts \<Longrightarrow> info ''post'' = Some post \<Longrightarrow> post |\<subseteq>| post_places ts"
  by (induction ts) auto

lemma post_places_mem:
  "info \<in> snd ` set ts \<Longrightarrow> info ''post'' = Some post \<Longrightarrow> post |\<subseteq>| post_places ts"
  using post_places_mem_pair by fastforce

lemma fires_subset:
  "info \<in> snd ` set ts \<Longrightarrow> fires info m = Some m' \<Longrightarrow> m |\<subseteq>| m0 |\<union>| post_places ts
     \<Longrightarrow> m' |\<subseteq>| m0 |\<union>| post_places ts"
  using post_places_mem[of info ts]
  by (auto simp: fires_def split: option.splits if_splits)

lemma firing_sequence_subset:
  "set seq \<subseteq> snd ` set ts \<Longrightarrow> firing_sequence m seq = Some m' \<Longrightarrow>
     m |\<subseteq>| m0 |\<union>| post_places ts \<Longrightarrow> m' |\<subseteq>| m0 |\<union>| post_places ts"
proof (induction seq arbitrary: m)
  case Nil
  then show ?case by simp
next
  case (Cons info seq)
  from Cons.prems(2) obtain m1 where f: "fires info m = Some m1" and s: "firing_sequence m1 seq = Some m'"
    by (auto split: option.splits)
  have "m1 |\<subseteq>| m0 |\<union>| post_places ts"
    using fires_subset[OF _ f Cons.prems(3)] Cons.prems(1) by simp
  with Cons.IH[OF _ s] Cons.prems(1) show ?case by simp
qed

lemma reachable_subset: "reachable ts m0 m \<Longrightarrow> m |\<subseteq>| m0 |\<union>| post_places ts"
  unfolding reachable_def using firing_sequence_subset[of _ ts m0 m m0] by auto

lemma post_places_referenced: "m0 |\<union>| post_places ts |\<subseteq>| referenced_places m0 ts"
  by (induction ts) (auto split: option.splits)

lemma bfs_inv_fcard:
  assumes "bfs_inv ts m0 V Q tr"
  shows "fcard V \<le> 2 ^ fcard (m0 |\<union>| post_places ts)"
proof -
  have "V |\<subseteq>| fPow (m0 |\<union>| post_places ts)"
    using assms reachable_subset unfolding bfs_inv_def by blast
  from fcard_mono[OF this] show ?thesis by (simp add: fcard_fPow)
qed

lemma bfs_inv_step_aux:
  assumes wf: "wf_transitions ts" and inv: "bfs_inv ts m0 V Q tr"
    and setQ: "set Q = insert c (set rest)" and cnot: "c \<notin> set rest"
    and drest: "distinct rest"
  shows "\<exists>news. for_transitions c ts (V, rest)
            = Inr (V |\<union>| fset_of_list news, rest @ news)
          \<and> fcard (V |\<union>| fset_of_list news) = fcard V + length news
          \<and> bfs_inv ts m0 (V |\<union>| fset_of_list news) (rest @ news) (tr @ [c])"
proof -
  from for_transitions_wf[OF wf, of c V rest] obtain news where
    n: "for_transitions c ts (V, rest) = Inr (V |\<union>| fset_of_list news, rest @ news)"
       "distinct news" "set news = set (successors c ts) - fset V"
    by blast
  define N where "N = fset_of_list news"
  have N: "fset N = set news" by (simp add: N_def fset_of_list.rep_eq)
  have sub: "set Q \<subseteq> fset V" and tr: "set tr = fset V - set Q" and dtr: "distinct tr"
    and m0: "m0 |\<in>| V" and cl: "\<And>m. m \<in> set tr \<Longrightarrow> set (successors m ts) \<subseteq> fset V"
    and rV: "\<And>m. m |\<in>| V \<Longrightarrow> reachable ts m0 m"
    using inv by (simp_all add: bfs_inv_def)
  have cV: "c |\<in>| V" using sub setQ by auto
  have disj: "V |\<inter>| N = {||}" using n(3) N by auto
  have card: "fcard (V |\<union>| N) = fcard V + length news"
    using fcard_funion_disjoint[OF disj] n(2) N by (simp add: fcard.rep_eq distinct_card)
  have reach: "reachable ts m0 m" if "m |\<in>| V |\<union>| N" for m
  proof (cases "m |\<in>| V")
    case True
    then show ?thesis by (rule rV)
  next
    case False
    with that n(3) N have "m \<in> set (successors c ts)" by auto
    with rV[OF cV] show ?thesis by (rule reachable_step)
  qed
  have fU: "fset (V |\<union>| N) = fset V \<union> set news" using N by simp
  have i1: "distinct (rest @ news)"
  proof -
    have "set rest \<inter> set news = {}" using n(3) sub setQ by blast
    then show ?thesis using drest n(2) by simp
  qed
  have i2: "distinct (tr @ [c])" using dtr tr setQ by simp
  have i3: "set (tr @ [c]) = fset (V |\<union>| N) - set (rest @ news)"
  proof -
    have "set (tr @ [c]) = insert c (fset V - insert c (set rest))" using tr setQ by simp
    also have "\<dots> = (fset V \<union> set news) - (set rest \<union> set news)"
      using cnot cV n(3) by blast
    finally show ?thesis using fU by simp
  qed
  have i4: "set (rest @ news) \<subseteq> fset (V |\<union>| N)"
  proof -
    have "set rest \<subseteq> fset V" using sub setQ by blast
    then show ?thesis using fU by auto
  qed
  have i5: "set (successors m ts) \<subseteq> fset (V |\<union>| N)" if "m \<in> set (tr @ [c])" for m
  proof (cases "m = c")
    case True
    have "set (successors c ts) \<subseteq> fset V \<union> set news" using n(3) by blast
    then show ?thesis using True fU by simp
  next
    case False
    with that have "m \<in> set tr" by simp
    from cl[OF this] show ?thesis using fU by blast
  qed
  have i0: "m0 |\<in>| V |\<union>| N" using m0 by simp
  have "bfs_inv ts m0 (V |\<union>| N) (rest @ news) (tr @ [c])"
    unfolding bfs_inv_def using i0 reach i1 i2 i3 i4 i5 by blast
  with n(1) card show ?thesis unfolding N_def by blast
qed

lemma nth_split_facts:
  assumes "i < length Q" and "distinct Q"
  shows "set Q = insert (Q ! i) (set (take i Q @ drop (Suc i) Q))"
    and "Q ! i \<notin> set (take i Q @ drop (Suc i) Q)"
    and "distinct (take i Q @ drop (Suc i) Q)"
    and "Suc (length (take i Q @ drop (Suc i) Q)) = length Q"
proof -
  have Q: "Q = take i Q @ (Q ! i) # drop (Suc i) Q" using assms(1) by (rule id_take_nth_drop)
  define a b c where "a = take i Q" and "b = drop (Suc i) Q" and "c = Q ! i"
  have Q': "Q = a @ c # b" using Q by (simp add: a_def b_def c_def)
  have f1: "set Q = insert c (set (a @ b))" by (subst Q') auto
  have f2: "c \<notin> set (a @ b)" using assms(2) by (subst (asm) Q') auto
  have f3: "distinct (a @ b)" using assms(2) by (subst (asm) Q') auto
  have "length Q = length (a @ c # b)" by (rule arg_cong[OF Q'])
  then have f4: "Suc (length (a @ b)) = length Q" by simp
  show "set Q = insert (Q ! i) (set (take i Q @ drop (Suc i) Q))"
    using f1 unfolding a_def b_def c_def .
  show "Q ! i \<notin> set (take i Q @ drop (Suc i) Q)"
    using f2 unfolding a_def b_def c_def .
  show "distinct (take i Q @ drop (Suc i) Q)"
    using f3 unfolding a_def b_def c_def .
  show "Suc (length (take i Q @ drop (Suc i) Q)) = length Q"
    using f4 unfolding a_def b_def c_def .
qed

lemma bfs_inv_init: "bfs_inv ts m0 {|m0|} [m0] []"
  by (simp add: bfs_inv_def reachable_init)

lemma bfs_inv_final:
  assumes "bfs_inv ts m0 R [] tr"
  shows "(\<forall>m. m |\<in>| R \<longleftrightarrow> reachable ts m0 m) \<and> distinct tr \<and> set tr = fset R"
proof -
  have a: "m0 |\<in>| R" and b: "\<And>m. m |\<in>| R \<Longrightarrow> reachable ts m0 m"
    and c: "distinct tr" and d: "set tr = fset R"
    and e: "\<And>m. m \<in> set tr \<Longrightarrow> set (successors m ts) \<subseteq> fset R"
    using assms by (simp_all add: bfs_inv_def)
  have "m |\<in>| R" if "reachable ts m0 m" for m
    using a _ that
  proof (rule closed_contains_reachable)
    fix m' assume "m' |\<in>| R"
    then show "set (successors m' ts) \<subseteq> fset R" using e d by simp
  qed
  with b c d show ?thesis by blast
qed

lemma worklist_total:
  fixes L :: "'p marking fset \<Rightarrow> 'p marking list \<Rightarrow> 'p marking list \<Rightarrow> (string error + 'r) option"
  assumes wf: "wf_transitions ts"
    and eq: "\<And>V Q tr. L V Q tr =
      (if Q = [] then Some (Inr (out V tr))
       else (case for_transitions (Q ! sel Q) ts (V, take (sel Q) Q @ drop (Suc (sel Q)) Q) of
               Inl e \<Rightarrow> Some (Inl e)
             | Inr (V', Q') \<Rightarrow> L V' Q' (tr @ [Q ! sel Q])))"
    and sel: "\<And>Q. Q \<noteq> [] \<Longrightarrow> sel Q < length Q"
  shows "bfs_inv ts m0 V Q tr \<Longrightarrow>
    \<exists>R tr'. L V Q tr = Some (Inr (out R tr')) \<and> bfs_inv ts m0 R [] tr'"
proof (induction "2 * (2 ^ fcard (m0 |\<union>| post_places ts) - fcard V) + length Q"
    arbitrary: V Q tr rule: less_induct)
  case less
  show ?case
  proof (cases "Q = []")
    case True
    then have "L V Q tr = Some (Inr (out V tr))" by (subst eq) simp
    with less.prems True show ?thesis by blast
  next
    case False
    define i where "i = sel Q"
    have i: "i < length Q" unfolding i_def using False by (rule sel)
    have dQ: "distinct Q" using less.prems by (simp add: bfs_inv_def)
    define c where "c = Q ! i"
    define rest where "rest = take i Q @ drop (Suc i) Q"
    note f = nth_split_facts[OF i dQ, folded c_def rest_def]
    from bfs_inv_step_aux[OF wf less.prems f(1) f(2) f(3)] obtain news where
      n: "for_transitions c ts (V, rest) = Inr (V |\<union>| fset_of_list news, rest @ news)"
         "fcard (V |\<union>| fset_of_list news) = fcard V + length news"
         "bfs_inv ts m0 (V |\<union>| fset_of_list news) (rest @ news) (tr @ [c])"
      by blast
    have unfold: "L V Q tr = L (V |\<union>| fset_of_list news) (rest @ news) (tr @ [c])"
      using False n(1) by (subst eq) (simp add: i_def[symmetric] c_def[symmetric] rest_def[symmetric])
    have bound: "fcard (V |\<union>| fset_of_list news) \<le> 2 ^ fcard (m0 |\<union>| post_places ts)"
      using n(3) by (rule bfs_inv_fcard)
    have "2 * (2 ^ fcard (m0 |\<union>| post_places ts) - fcard (V |\<union>| fset_of_list news))
            + length (rest @ news)
          < 2 * (2 ^ fcard (m0 |\<union>| post_places ts) - fcard V) + length Q"
      using bound n(2) f(4) by simp
    from less.hyps[OF this n(3)] unfold show ?thesis by simp
  qed
qed

section \<open>The three loops terminate with the reachable set\<close>

lemma bfs_loop_eq:
  "bfs_loop ts V Q =
     (if Q = [] then Some (Inr ((\<lambda>V tr. V) V tr))
      else (case for_transitions (Q ! (\<lambda>Q. 0) Q) ts
                   (V, take ((\<lambda>Q. 0) Q) Q @ drop (Suc ((\<lambda>Q. 0) Q)) Q) of
              Inl e \<Rightarrow> Some (Inl e)
            | Inr (V', Q') \<Rightarrow> bfs_loop ts V' Q'))"
  by (subst bfs_loop.simps) (cases Q; simp)

lemma bfs_loop_traced_eq:
  "bfs_loop_traced ts V Q tr =
     (if Q = [] then Some (Inr (Pair V tr))
      else (case for_transitions (Q ! (\<lambda>Q. 0) Q) ts
                   (V, take ((\<lambda>Q. 0) Q) Q @ drop (Suc ((\<lambda>Q. 0) Q)) Q) of
              Inl e \<Rightarrow> Some (Inl e)
            | Inr (V', Q') \<Rightarrow> bfs_loop_traced ts V' Q' (tr @ [Q ! (\<lambda>Q. 0) Q])))"
  by (subst bfs_loop_traced.simps) (cases Q; simp split: sum.splits)

lemma worklist_loop_eq:
  "worklist_loop pick ts V Q =
     (if Q = [] then Some (Inr ((\<lambda>V tr. V) V tr))
      else (case for_transitions (Q ! (\<lambda>Q. pick Q mod length Q) Q) ts
                   (V, take ((\<lambda>Q. pick Q mod length Q) Q) Q
                         @ drop (Suc ((\<lambda>Q. pick Q mod length Q) Q)) Q) of
              Inl e \<Rightarrow> Some (Inl e)
            | Inr (V', Q') \<Rightarrow> worklist_loop pick ts V' Q'))"
  by (subst worklist_loop.simps) simp

lemma bfs_loop_total:
  assumes "wf_transitions ts" and "bfs_inv ts m0 V Q tr"
  shows "\<exists>R tr'. bfs_loop ts V Q = Some (Inr R) \<and> bfs_inv ts m0 R [] tr'"
  using worklist_total[where L = "\<lambda>V Q tr. bfs_loop ts V Q" and out = "\<lambda>V tr. V"
      and sel = "\<lambda>Q. 0", OF assms(1) bfs_loop_eq _ assms(2)]
  by simp

lemma bfs_loop_traced_total:
  assumes "wf_transitions ts" and "bfs_inv ts m0 V Q tr"
  shows "\<exists>R tr'. bfs_loop_traced ts V Q tr = Some (Inr (R, tr')) \<and> bfs_inv ts m0 R [] tr'"
  using worklist_total[where L = "bfs_loop_traced ts" and out = Pair
      and sel = "\<lambda>Q. 0", OF assms(1) bfs_loop_traced_eq _ assms(2)]
  by simp

lemma worklist_loop_total:
  assumes "wf_transitions ts" and "bfs_inv ts m0 V Q tr"
  shows "\<exists>R tr'. worklist_loop pick ts V Q = Some (Inr R) \<and> bfs_inv ts m0 R [] tr'"
  using worklist_total[where L = "\<lambda>V Q tr. worklist_loop pick ts V Q" and out = "\<lambda>V tr. V"
      and sel = "\<lambda>Q. pick Q mod length Q", OF assms(1) worklist_loop_eq _ assms(2)]
  by simp

section \<open>Properties of the engine\<close>

lemma for_transitions_not_wf:
  "\<not> wf_transitions ts \<Longrightarrow> \<exists>e. for_transitions cur ts (V, Q) = Inl e"
proof (induction ts arbitrary: V Q)
  case Nil
  then show ?case by (simp add: wf_transitions_def)
next
  case (Cons a ts)
  obtain t info where a: "a = (t, info)" by (cases a)
  show ?case
  proof (cases "info ''pre'' \<noteq> None \<and> info ''post'' \<noteq> None")
    case True
    with Cons.prems a have "\<not> wf_transitions ts" by (simp add: wf_transitions_Cons)
    from Cons.IH[OF this] True show ?thesis
      by (auto simp: a Let_def)
  next
    case False
    then show ?thesis by (auto simp: a split: option.splits)
  qed
qed

lemma bfs_not_wf:
  assumes "\<not> wf_transitions ts"
  shows "\<exists>e. find_reachable_markings_bfs m0 ts = Some (Inl e)"
proof -
  from for_transitions_not_wf[OF assms, of m0 "{|m0|}" "[]"] obtain e where
    "for_transitions m0 ts ({|m0|}, []) = Inl e" by blast
  then show ?thesis
    by (simp add: find_reachable_markings_bfs_def bfs_loop.simps)
qed

lemma bfs_wf:
  assumes "wf_transitions ts"
  shows "\<exists>R tr. find_reachable_markings_bfs m0 ts = Some (Inr R) \<and> bfs_inv ts m0 R [] tr"
  using bfs_loop_total[OF assms bfs_inv_init, of m0]
  by (simp add: find_reachable_markings_bfs_def)

lemma bfs_traced_wf:
  assumes "wf_transitions ts"
  shows "\<exists>R tr. find_reachable_markings_bfs_traced m0 ts = Some (Inr (R, tr))
           \<and> bfs_inv ts m0 R [] tr"
  using bfs_loop_traced_total[OF assms bfs_inv_init, of m0]
  by (simp add: find_reachable_markings_bfs_traced_def)

lemma worklist_wf:
  assumes "wf_transitions ts"
  shows "\<exists>R tr. find_reachable_markings_worklist pick m0 ts = Some (Inr R)
           \<and> bfs_inv ts m0 R [] tr"
  using worklist_loop_total[OF assms bfs_inv_init, of pick m0]
  by (simp add: find_reachable_markings_worklist_def)

lemma bfs_inv_final_unique:
  assumes "bfs_inv ts m0 R [] tr" and "bfs_inv ts' m0 R' [] tr'" and "set ts' = set ts"
  shows "R' = R"
proof (rule fset_eqI)
  fix m
  have "reachable ts' m0 m \<longleftrightarrow> reachable ts m0 m"
    by (simp add: reachable_def assms(3))
  with bfs_inv_final[OF assms(1)] bfs_inv_final[OF assms(2)]
  show "m |\<in>| R' \<longleftrightarrow> m |\<in>| R" by blast
qed

lemma wf_transitions_set: "set ts' = set ts \<Longrightarrow> wf_transitions ts' = wf_transitions ts"
  by (simp add: wf_transitions_def list_all_iff)

text \<open>
  Claim C1. On a well-formed transition table the engine returns a set, and a marking is in
  that set exactly when some finite firing sequence from the initial marking produces it.
\<close>

theorem bfs_result_is_reachable_set:
  assumes "wf_transitions ts"
  shows "\<exists>R. find_reachable_markings_bfs m0 ts = Some (Inr R)
           \<and> (\<forall>m. m |\<in>| R \<longleftrightarrow> reachable ts m0 m)"
proof -
  from bfs_wf[OF assms, of m0] obtain R tr where
    r: "find_reachable_markings_bfs m0 ts = Some (Inr R)" and i: "bfs_inv ts m0 R [] tr"
    by blast
  from bfs_inv_final[OF i] r show ?thesis by blast
qed

text \<open>
  Claim C8. On a well-formed transition table and any initial marking the engine returns a
  result: the loop ends and no \<open>KeyError\<close> is raised.
\<close>

theorem bfs_total_on_well_formed:
  assumes "wf_transitions ts"
  shows "\<exists>R. find_reachable_markings_bfs m0 ts = Some (Inr R)"
  using bfs_wf[OF assms, of m0] by blast

text \<open>
  Claim C10. Every marking of the returned set is a subset of the union of the initial
  marking with the postcondition sets of all transitions.
\<close>

theorem bfs_markings_within_places:
  assumes "find_reachable_markings_bfs m0 ts = Some (Inr R)" and "m |\<in>| R"
  shows "m |\<subseteq>| m0 |\<union>| post_places ts"
proof -
  have wf: "wf_transitions ts"
  proof (rule ccontr)
    assume "\<not> wf_transitions ts"
    from bfs_not_wf[OF this, of m0] assms(1) show False by simp
  qed
  from bfs_wf[OF wf, of m0] assms(1) obtain tr where "bfs_inv ts m0 R [] tr" by auto
  from bfs_inv_final[OF this] assms(2) have "reachable ts m0 m" by blast
  then show ?thesis by (rule reachable_subset)
qed

text \<open>
  Claim C2. The engine terminates on every table and initial marking. When it returns a set,
  the set has at most \<open>2 ^ n\<close> markings, \<open>n\<close> the number of distinct places referenced
  in the net, and the sequence of markings taken from the queue and expanded has no
  repetition and consists of exactly the visited markings. Every enqueued marking is
  dequeued before the loop ends, so none is enqueued twice.
\<close>

theorem bfs_terminates_bounded:
  "\<exists>r. find_reachable_markings_bfs m0 ts = Some r \<and>
     (\<forall>R. r = Inr R \<longrightarrow>
        fcard R \<le> 2 ^ fcard (referenced_places m0 ts) \<and>
        (\<exists>expanded. find_reachable_markings_bfs_traced m0 ts = Some (Inr (R, expanded))
           \<and> distinct expanded \<and> set expanded = fset R))"
proof (cases "wf_transitions ts")
  case False
  from bfs_not_wf[OF this, of m0] show ?thesis by auto
next
  case True
  from bfs_wf[OF True, of m0] obtain R tr where
    r: "find_reachable_markings_bfs m0 ts = Some (Inr R)" and i: "bfs_inv ts m0 R [] tr"
    by blast
  from bfs_traced_wf[OF True, of m0] obtain R' tr' where
    r': "find_reachable_markings_bfs_traced m0 ts = Some (Inr (R', tr'))"
    and i': "bfs_inv ts m0 R' [] tr'"
    by blast
  have eq: "R' = R" using i i' by (rule bfs_inv_final_unique) simp
  have "fcard R \<le> 2 ^ fcard (m0 |\<union>| post_places ts)" using i by (rule bfs_inv_fcard)
  also have "\<dots> \<le> 2 ^ fcard (referenced_places m0 ts)"
    using fcard_mono[OF post_places_referenced[of m0 ts]] by simp
  finally have b: "fcard R \<le> 2 ^ fcard (referenced_places m0 ts)" .
  from bfs_inv_final[OF i'] have "distinct tr'" "set tr' = fset R" using eq by auto
  with r r' eq b show ?thesis by auto
qed

text \<open>
  Claim C6. For a well-formed table, a permutation of the table gives the same result, and
  so does the loop with any rule for picking the next pending marking.
\<close>

theorem bfs_order_independent:
  assumes "wf_transitions ts" and "mset ts' = mset ts"
  shows "find_reachable_markings_bfs m0 ts' = find_reachable_markings_bfs m0 ts
       \<and> find_reachable_markings_worklist pick m0 ts' = find_reachable_markings_bfs m0 ts"
proof -
  have s: "set ts' = set ts" using assms(2) by (rule mset_eq_setD)
  have wf': "wf_transitions ts'" using assms(1) wf_transitions_set[OF s] by simp
  from bfs_wf[OF assms(1), of m0] obtain R tr where
    r: "find_reachable_markings_bfs m0 ts = Some (Inr R)" and i: "bfs_inv ts m0 R [] tr"
    by blast
  from bfs_wf[OF wf', of m0] obtain R1 tr1 where
    r1: "find_reachable_markings_bfs m0 ts' = Some (Inr R1)" and i1: "bfs_inv ts' m0 R1 [] tr1"
    by blast
  from worklist_wf[OF wf', of pick m0] obtain R2 tr2 where
    r2: "find_reachable_markings_worklist pick m0 ts' = Some (Inr R2)"
    and i2: "bfs_inv ts' m0 R2 [] tr2"
    by blast
  have "R1 = R" using i i1 s by (rule bfs_inv_final_unique)
  moreover have "R2 = R" using i i2 s by (rule bfs_inv_final_unique)
  ultimately show ?thesis using r r1 r2 by simp
qed

section \<open>One pass over the transitions\<close>

lemma fires_Some_iff:
  "fires info cur = Some N \<longleftrightarrow>
     (\<exists>pre post. info ''pre'' = Some pre \<and> info ''post'' = Some post \<and> pre |\<subseteq>| cur
        \<and> N = (cur |-| pre) |\<union>| post)"
  by (cases "info ''pre''"; cases "info ''post''") (auto simp: fires_def)

lemma in_successors_explicit:
  "N \<in> set (successors cur ts) \<longleftrightarrow>
     (\<exists>t info pre post. (t, info) \<in> set ts \<and> info ''pre'' = Some pre \<and>
        info ''post'' = Some post \<and> pre |\<subseteq>| cur \<and> N = (cur |-| pre) |\<union>| post)"
proof -
  have "N \<in> set (successors cur ts) \<longleftrightarrow> (\<exists>t info. (t, info) \<in> set ts \<and> fires info cur = Some N)"
    unfolding in_successors by force
  then show ?thesis unfolding fires_Some_iff by blast
qed

text \<open>
  Claim C4. For a dequeued marking \<open>cur\<close>, the loop over a well-formed table records
  exactly the markings \<open>(cur \ pre) \<union> post\<close> of the enabled transitions besides those
  already visited. In particular the successor of an enabled transition is recorded and
  holds every place of its postcondition set, whether or not the place is also in the
  precondition set or in \<open>cur\<close>.
\<close>

theorem successor_marking:
  assumes "wf_transitions ts"
  shows "\<exists>V' Q'. for_transitions cur ts (V, Q) = Inr (V', Q') \<and>
     (\<forall>N. N |\<in>| V' \<longleftrightarrow> N |\<in>| V \<or>
        (\<exists>t info pre post. (t, info) \<in> set ts \<and> info ''pre'' = Some pre \<and>
           info ''post'' = Some post \<and> pre |\<subseteq>| cur \<and> N = (cur |-| pre) |\<union>| post)) \<and>
     (\<forall>t info pre post p. (t, info) \<in> set ts \<and> info ''pre'' = Some pre \<and>
           info ''post'' = Some post \<and> pre |\<subseteq>| cur \<and> p |\<in>| post \<longrightarrow>
        (cur |-| pre) |\<union>| post |\<in>| V' \<and> p |\<in>| (cur |-| pre) |\<union>| post)"
proof -
  from for_transitions_wf[OF assms, of cur V Q] obtain news where
    n: "for_transitions cur ts (V, Q) = Inr (V |\<union>| fset_of_list news, Q @ news)"
    and s: "set news = set (successors cur ts) - fset V"
    by blast
  define V' where "V' = V |\<union>| fset_of_list news"
  have mem: "N |\<in>| V' \<longleftrightarrow> N |\<in>| V \<or> N \<in> set (successors cur ts)" for N
  proof -
    have "N |\<in>| V' \<longleftrightarrow> N |\<in>| V \<or> N \<in> set news"
      by (simp add: V'_def fset_of_list_elem)
    also have "\<dots> \<longleftrightarrow> N |\<in>| V \<or> N \<in> set (successors cur ts)" using s by blast
    finally show ?thesis .
  qed
  have a: "\<forall>N. N |\<in>| V' \<longleftrightarrow> N |\<in>| V \<or>
        (\<exists>t info pre post. (t, info) \<in> set ts \<and> info ''pre'' = Some pre \<and>
           info ''post'' = Some post \<and> pre |\<subseteq>| cur \<and> N = (cur |-| pre) |\<union>| post)"
    unfolding mem in_successors_explicit by (rule allI) (rule refl)
  have b: "(cur |-| pre) |\<union>| post |\<in>| V' \<and> p |\<in>| (cur |-| pre) |\<union>| post"
    if "(t, info) \<in> set ts \<and> info ''pre'' = Some pre \<and>
           info ''post'' = Some post \<and> pre |\<subseteq>| cur \<and> p |\<in>| post" for t info pre post p
  proof
    have "(cur |-| pre) |\<union>| post \<in> set (successors cur ts)"
      unfolding in_successors_explicit using that by blast
    then show "(cur |-| pre) |\<union>| post |\<in>| V'" unfolding mem by simp
    show "p |\<in>| (cur |-| pre) |\<union>| post" using that by simp
  qed
  have r: "for_transitions cur ts (V, Q) = Inr (V', Q @ news)" using n by (simp add: V'_def)
  have b': "\<forall>t info pre post p. (t, info) \<in> set ts \<and> info ''pre'' = Some pre \<and>
           info ''post'' = Some post \<and> pre |\<subseteq>| cur \<and> p |\<in>| post \<longrightarrow>
        (cur |-| pre) |\<union>| post |\<in>| V' \<and> p |\<in>| (cur |-| pre) |\<union>| post"
    by (intro allI impI) (rule b)
  show ?thesis
    by (rule exI[of _ V'], rule exI[of _ "Q @ news"]) (rule conjI[OF r conjI[OF a b']])
qed

lemma for_transitions_append:
  "for_transitions cur (xs @ ys) (V, Q) =
     (case for_transitions cur xs (V, Q) of
        Inl e \<Rightarrow> Inl e
      | Inr (V1, Q1) \<Rightarrow> for_transitions cur ys (V1, Q1))"
proof (induction xs arbitrary: V Q)
  case Nil
  show ?case by simp
next
  case (Cons x xs)
  obtain t info where x: "x = (t, info)" by (cases x)
  show ?case
    by (cases "info ''pre''"; cases "info ''post''") (simp_all add: x Cons.IH Let_def)
qed

text \<open>
  Claim C5. In any pass of the loop, whatever the table around a transition and whatever
  the visited set and the queue when the loop comes to it (the state \<open>(V1, Q1)\<close> left by
  the transitions \<open>before\<close> it): if its precondition set is a subset of the current marking
  the transition is fired, its successor being recorded when it is new, and otherwise the
  transition is skipped and the pass goes on from the same state. So a new successor is
  recorded exactly when the precondition set is a subset of the current marking, and a
  transition with an empty precondition set is fired in every marking.
\<close>

theorem enabled_test:
  assumes "info ''pre'' = Some pre" and "info ''post'' = Some post"
    and "for_transitions cur before (V, Q) = Inr (V1, Q1)"
  shows "(pre |\<subseteq>| cur \<longrightarrow>
            for_transitions cur (before @ (t, info) # rest) (V, Q) =
              for_transitions cur rest
                (if (cur |-| pre) |\<union>| post |\<notin>| V1
                 then (finsert ((cur |-| pre) |\<union>| post) V1, Q1 @ [(cur |-| pre) |\<union>| post])
                 else (V1, Q1)))
       \<and> (\<not> pre |\<subseteq>| cur \<longrightarrow>
            for_transitions cur (before @ (t, info) # rest) (V, Q) =
              for_transitions cur rest (V1, Q1))
       \<and> ((cur |-| pre) |\<union>| post |\<notin>| V1 \<longrightarrow>
            (for_transitions cur (before @ [(t, info)]) (V, Q) =
               Inr (finsert ((cur |-| pre) |\<union>| post) V1, Q1 @ [(cur |-| pre) |\<union>| post])
             \<longleftrightarrow> pre |\<subseteq>| cur))
       \<and> (pre = {||} \<longrightarrow>
            for_transitions cur (before @ (t, info) # rest) (V, Q) =
              for_transitions cur rest
                (if cur |\<union>| post |\<notin>| V1
                 then (finsert (cur |\<union>| post) V1, Q1 @ [cur |\<union>| post])
                 else (V1, Q1)))"
proof -
  let ?N = "(cur |-| pre) |\<union>| post"
  have step: "for_transitions cur (before @ (t, info) # ys) (V, Q) =
      (if pre |\<subseteq>| cur
       then for_transitions cur ys
              (if ?N |\<notin>| V1 then (finsert ?N V1, Q1 @ [?N]) else (V1, Q1))
       else for_transitions cur ys (V1, Q1))" for ys
    by (simp add: for_transitions_append assms Let_def)
  have a: "pre |\<subseteq>| cur \<longrightarrow>
            for_transitions cur (before @ (t, info) # rest) (V, Q) =
              for_transitions cur rest
                (if ?N |\<notin>| V1 then (finsert ?N V1, Q1 @ [?N]) else (V1, Q1))"
    by (simp add: step)
  have b: "\<not> pre |\<subseteq>| cur \<longrightarrow>
            for_transitions cur (before @ (t, info) # rest) (V, Q) =
              for_transitions cur rest (V1, Q1)"
    by (simp add: step)
  have c: "?N |\<notin>| V1 \<longrightarrow>
            (for_transitions cur (before @ [(t, info)]) (V, Q) =
               Inr (finsert ?N V1, Q1 @ [?N]) \<longleftrightarrow> pre |\<subseteq>| cur)"
  proof
    assume n: "?N |\<notin>| V1"
    have "finsert ?N V1 \<noteq> V1" using n by auto
    then show "for_transitions cur (before @ [(t, info)]) (V, Q) =
               Inr (finsert ?N V1, Q1 @ [?N]) \<longleftrightarrow> pre |\<subseteq>| cur"
      using n by (simp add: step)
  qed
  have d: "pre = {||} \<longrightarrow>
            for_transitions cur (before @ (t, info) # rest) (V, Q) =
              for_transitions cur rest
                (if cur |\<union>| post |\<notin>| V1
                 then (finsert (cur |\<union>| post) V1, Q1 @ [cur |\<union>| post])
                 else (V1, Q1))"
  proof
    assume e: "pre = {||}"
    show "for_transitions cur (before @ (t, info) # rest) (V, Q) =
              for_transitions cur rest
                (if cur |\<union>| post |\<notin>| V1
                 then (finsert (cur |\<union>| post) V1, Q1 @ [cur |\<union>| post])
                 else (V1, Q1))"
      unfolding step[of rest] e by simp
  qed
  show ?thesis by (rule conjI[OF a conjI[OF b conjI[OF c d]]])
qed

text \<open>
  Claim C7. Scenario D: with the single transition \<open>t1\<close> of precondition \<open>{p1, p2}\<close> and
  postcondition \<open>{p3}\<close> and the initial marking \<open>{p1}\<close>, the engine returns exactly
  \<open>{{p1}}\<close>, of size 1: \<open>t1\<close> is not enabled in the only discovered marking, which lacks
  \<open>p2\<close>.
\<close>

theorem scenario_two_token_precondition:
  "find_reachable_markings_bfs {|''p1''|}
     [(''t1'', [''pre'' \<mapsto> {|''p1'', ''p2''|}, ''post'' \<mapsto> {|''p3''|}])]
     = Some (Inr {|{|''p1''|}|})
   \<and> fcard {|{|''p1''|}|} = 1
   \<and> fires [''pre'' \<mapsto> {|''p1'', ''p2''|}, ''post'' \<mapsto> {|''p3''|}] {|''p1''|} = None
   \<and> ''p2'' |\<notin>| {|''p1''|}"
  by (simp add: find_reachable_markings_bfs_def bfs_loop.simps fires_def fcard_finsert_if)

section \<open>Properties of the adapter\<close>

lemma map_of_ne_None: "map_of xs k \<noteq> None \<longleftrightarrow> k \<in> fst ` set xs"
  by (simp add: map_of_eq_None_iff)

lemma init_transitions_dict_props:
  "distinct (map fst d) \<Longrightarrow>
   distinct (map fst (init_transitions_dict ks d)) \<and>
   map_of (init_transitions_dict ks d) =
     (\<lambda>t. if t \<in> set ks then Some [''pre'' \<mapsto> {||}, ''post'' \<mapsto> {||}] else map_of d t)"
proof (induction ks arbitrary: d)
  case Nil
  then show ?case by simp
next
  case (Cons k ks)
  let ?d = "AList.update k [''pre'' \<mapsto> {||}, ''post'' \<mapsto> {||}] d"
  have "distinct (map fst ?d)" using Cons.prems by (simp add: AList.distinct_update)
  from Cons.IH[OF this] show ?case
    by (auto simp: AList.update_conv' fun_eq_iff)
qed

lemma table_inv_init:
  "table_inv net [] (init_transitions_dict (map fst (transitions net)) [])"
  using init_transitions_dict_props[of "[]" "map fst (transitions net)"]
  by (auto simp: table_inv_def is_transition_def pre_arcs_def post_arcs_def fun_eq_iff)

lemma info_upd_pre: "[''pre'' \<mapsto> A, ''post'' \<mapsto> B](''pre'' \<mapsto> C) = [''pre'' \<mapsto> C, ''post'' \<mapsto> B]"
  by (rule ext) simp

lemma info_upd_post: "[''pre'' \<mapsto> A, ''post'' \<mapsto> B](''post'' \<mapsto> C) = [''pre'' \<mapsto> A, ''post'' \<mapsto> C]"
  by (rule ext) simp

lemma pre_arcs_snoc:
  "pre_arcs net (as @ [a]) t =
     (if is_place net (source a) \<and> is_transition net (target a) \<and> target a = t
      then finsert (source a) (pre_arcs net as t) else pre_arcs net as t)"
  by (auto simp: pre_arcs_def)

lemma post_arcs_snoc:
  "post_arcs net (as @ [a]) t =
     (if \<not> (is_place net (source a) \<and> is_transition net (target a))
          \<and> is_transition net (source a) \<and> is_place net (target a) \<and> source a = t
      then finsert (target a) (post_arcs net as t) else post_arcs net as t)"
  by (auto simp: post_arcs_def)

lemma set_add_pre:
  assumes inv: "table_inv net as d" and t: "is_transition net (target a)"
    and p: "is_place net (source a)"
  shows "\<exists>d'. set_add d (target a) ''pre'' (source a) = Inr d' \<and> table_inv net (as @ [a]) d'"
proof -
  let ?t = "target a"
  let ?info = "[''pre'' \<mapsto> pre_arcs net as ?t, ''post'' \<mapsto> post_arcs net as ?t]"
  have dist: "distinct (map fst d)" and m: "map_of d ?t = Some ?info"
    using inv t by (simp_all add: table_inv_def)
  let ?d' = "AList.update ?t (?info(''pre'' \<mapsto> finsert (source a) (pre_arcs net as ?t))) d"
  have r: "set_add d ?t ''pre'' (source a) = Inr ?d'"
    by (simp add: set_add_def m)
  have "distinct (map fst ?d')" using dist by (simp add: AList.distinct_update)
  moreover have "map_of ?d' =
     (\<lambda>t. if is_transition net t
           then Some [''pre'' \<mapsto> pre_arcs net (as @ [a]) t, ''post'' \<mapsto> post_arcs net (as @ [a]) t]
           else None)"
  proof (rule ext)
    fix u
    show "map_of ?d' u =
      (if is_transition net u
       then Some [''pre'' \<mapsto> pre_arcs net (as @ [a]) u, ''post'' \<mapsto> post_arcs net (as @ [a]) u]
       else None)"
    proof (cases "u = ?t")
      case True
      then show ?thesis using t p
        by (simp add: AList.update_conv' info_upd_pre pre_arcs_snoc post_arcs_snoc)
    next
      case False
      have "map_of ?d' u = map_of d u" using False by (simp add: AList.update_conv')
      also have "\<dots> = (if is_transition net u
         then Some [''pre'' \<mapsto> pre_arcs net as u, ''post'' \<mapsto> post_arcs net as u] else None)"
        using inv by (simp add: table_inv_def)
      also have "\<dots> = (if is_transition net u
         then Some [''pre'' \<mapsto> pre_arcs net (as @ [a]) u, ''post'' \<mapsto> post_arcs net (as @ [a]) u]
         else None)"
        using False t p by (simp add: pre_arcs_snoc post_arcs_snoc)
      finally show ?thesis .
    qed
  qed
  ultimately have "table_inv net (as @ [a]) ?d'" by (simp add: table_inv_def)
  with r show ?thesis by blast
qed

lemma set_add_post:
  assumes inv: "table_inv net as d" and t: "is_transition net (source a)"
    and p: "is_place net (target a)"
    and n: "\<not> (is_place net (source a) \<and> is_transition net (target a))"
  shows "\<exists>d'. set_add d (source a) ''post'' (target a) = Inr d' \<and> table_inv net (as @ [a]) d'"
proof -
  let ?t = "source a"
  let ?info = "[''pre'' \<mapsto> pre_arcs net as ?t, ''post'' \<mapsto> post_arcs net as ?t]"
  have dist: "distinct (map fst d)" and m: "map_of d ?t = Some ?info"
    using inv t by (simp_all add: table_inv_def)
  let ?d' = "AList.update ?t (?info(''post'' \<mapsto> finsert (target a) (post_arcs net as ?t))) d"
  have r: "set_add d ?t ''post'' (target a) = Inr ?d'"
    by (simp add: set_add_def m)
  have "distinct (map fst ?d')" using dist by (simp add: AList.distinct_update)
  moreover have "map_of ?d' =
     (\<lambda>t. if is_transition net t
           then Some [''pre'' \<mapsto> pre_arcs net (as @ [a]) t, ''post'' \<mapsto> post_arcs net (as @ [a]) t]
           else None)"
  proof (rule ext)
    fix u
    show "map_of ?d' u =
      (if is_transition net u
       then Some [''pre'' \<mapsto> pre_arcs net (as @ [a]) u, ''post'' \<mapsto> post_arcs net (as @ [a]) u]
       else None)"
    proof (cases "u = ?t")
      case True
      then show ?thesis using t p n
        by (auto simp: AList.update_conv' info_upd_post pre_arcs_snoc post_arcs_snoc)
    next
      case False
      have "map_of ?d' u = map_of d u" using False by (simp add: AList.update_conv')
      also have "\<dots> = (if is_transition net u
         then Some [''pre'' \<mapsto> pre_arcs net as u, ''post'' \<mapsto> post_arcs net as u] else None)"
        using inv by (simp add: table_inv_def)
      also have "\<dots> = (if is_transition net u
         then Some [''pre'' \<mapsto> pre_arcs net (as @ [a]) u, ''post'' \<mapsto> post_arcs net (as @ [a]) u]
         else None)"
        using False t p n by (auto simp: pre_arcs_snoc post_arcs_snoc)
      finally show ?thesis .
    qed
  qed
  ultimately have "table_inv net (as @ [a]) ?d'" by (simp add: table_inv_def)
  with r show ?thesis by blast
qed

lemma table_inv_skip:
  assumes inv: "table_inv net as d"
    and n1: "\<not> (is_place net (source a) \<and> is_transition net (target a))"
    and n2: "\<not> (is_transition net (source a) \<and> is_place net (target a))"
  shows "table_inv net (as @ [a]) d"
proof -
  have e1: "pre_arcs net (as @ [a]) = pre_arcs net as"
    using n1 by (auto simp: pre_arcs_snoc fun_eq_iff)
  have e2: "post_arcs net (as @ [a]) = post_arcs net as"
    using n2 by (auto simp: post_arcs_snoc fun_eq_iff)
  show ?thesis using inv unfolding table_inv_def e1 e2 .
qed

lemma for_arcs_Cons:
  "for_arcs net (a # as) d =
     (if is_place net (source a) \<and> is_transition net (target a)
      then (case set_add d (target a) ''pre'' (source a) of
              Inl e \<Rightarrow> Inl e | Inr d' \<Rightarrow> for_arcs net as d')
      else if is_transition net (source a) \<and> is_place net (target a)
      then (case set_add d (source a) ''post'' (target a) of
              Inl e \<Rightarrow> Inl e | Inr d' \<Rightarrow> for_arcs net as d')
      else for_arcs net as d)"
  by (simp add: Let_def is_place_def is_transition_def map_of_eq_None_iff del: not_None_eq)

lemma for_arcs_inv:
  "table_inv net seen d \<Longrightarrow>
     \<exists>d'. for_arcs net as d = Inr d' \<and> table_inv net (seen @ as) d'"
proof (induction as arbitrary: seen d)
  case Nil
  then show ?case by simp
next
  case (Cons a as)
  consider (pt) "is_place net (source a) \<and> is_transition net (target a)"
    | (tp) "\<not> (is_place net (source a) \<and> is_transition net (target a))"
           "is_transition net (source a) \<and> is_place net (target a)"
    | (skip) "\<not> (is_place net (source a) \<and> is_transition net (target a))"
           "\<not> (is_transition net (source a) \<and> is_place net (target a))"
    by blast
  then show ?case
  proof cases
    case pt
    from set_add_pre[OF Cons.prems] pt obtain d1 where
      s: "set_add d (target a) ''pre'' (source a) = Inr d1" and i: "table_inv net (seen @ [a]) d1"
      by blast
    from Cons.IH[OF i] obtain d' where
      "for_arcs net as d1 = Inr d'" "table_inv net ((seen @ [a]) @ as) d'" by blast
    with pt s show ?thesis
      by (auto simp: for_arcs_Cons simp del: for_arcs.simps)
  next
    case tp
    from set_add_post[OF Cons.prems] tp obtain d1 where
      s: "set_add d (source a) ''post'' (target a) = Inr d1" and i: "table_inv net (seen @ [a]) d1"
      by blast
    from Cons.IH[OF i] obtain d' where
      "for_arcs net as d1 = Inr d'" "table_inv net ((seen @ [a]) @ as) d'" by blast
    with tp s show ?thesis
      by (auto simp: for_arcs_Cons simp del: for_arcs.simps)
  next
    case skip
    from table_inv_skip[OF Cons.prems skip] have i: "table_inv net (seen @ [a]) d" .
    from Cons.IH[OF i] obtain d' where
      "for_arcs net as d = Inr d'" "table_inv net ((seen @ [a]) @ as) d'" by blast
    with skip show ?thesis
      by (auto simp: for_arcs_Cons simp del: for_arcs.simps)
  qed
qed

lemma fset_pre_arcs:
  "is_transition net t \<Longrightarrow>
   fset (pre_arcs net as t) = {source a | a. a \<in> set as \<and> is_place net (source a) \<and> target a = t}"
  by (auto simp: pre_arcs_def fset_of_list.rep_eq)

lemma fset_post_arcs:
  "is_transition net t \<Longrightarrow>
   fset (post_arcs net as t) =
     {target a | a. a \<in> set as \<and> source a = t \<and> is_place net (target a)
        \<and> \<not> (is_place net t \<and> is_transition net (target a))}"
  by (auto simp: post_arcs_def fset_of_list.rep_eq)

lemma table_inv_wf: "table_inv net as d \<Longrightarrow> wf_transitions d"
proof -
  assume inv: "table_inv net as d"
  have "info ''pre'' \<noteq> None \<and> info ''post'' \<noteq> None" if "(t, info) \<in> set d" for t info
  proof -
    have dist: "distinct (map fst d)" using inv by (simp add: table_inv_def)
    have "map_of d t = Some info" using dist that by (rule map_of_is_SomeI)
    moreover have "map_of d t = (if is_transition net t
        then Some [''pre'' \<mapsto> pre_arcs net as t, ''post'' \<mapsto> post_arcs net as t] else None)"
      using inv by (simp add: table_inv_def)
    ultimately show ?thesis by (auto split: if_splits)
  qed
  then show ?thesis by (auto simp: wf_transitions_def list_all_iff)
qed

text \<open>
  Claim C3, as amended. The adapter returns, for every Net Model, the set of the identifiers
  of the places whose initial token count is positive, and a table whose keys are the
  declared transitions, each mapped to a precondition set and a postcondition set: the
  precondition set of \<open>t\<close> holds the sources of the place-to-transition arcs into \<open>t\<close>,
  the postcondition set of \<open>t\<close> holds the targets of the transition-to-place arcs out of
  \<open>t\<close> that are not place-to-transition arcs as well, and no other arc contributes. No
  \<open>KeyError\<close> is raised.
\<close>

theorem convert_net_to_bfs_format_table:
  "\<exists>init d. convert_net_to_bfs_format net = Inr (init, d)
     \<and> fset init = {place_id p | p. p \<in> snd ` set (places net) \<and> initial_marking p > 0}
     \<and> distinct (map fst d) \<and> fst ` set d = fst ` set (transitions net)
     \<and> wf_transitions d
     \<and> (\<forall>t. is_transition net t \<longrightarrow>
          (\<exists>pre post. map_of d t = Some [''pre'' \<mapsto> pre, ''post'' \<mapsto> post]
             \<and> fset pre = {source a | a. a \<in> set (arcs net) \<and> is_place net (source a)
                             \<and> target a = t}
             \<and> fset post = {target a | a. a \<in> set (arcs net) \<and> source a = t
                             \<and> is_place net (target a)
                             \<and> \<not> (is_place net t \<and> is_transition net (target a))}))"
proof -
  define init where
    "init = fset_of_list (map place_id (filter (\<lambda>p. initial_marking p > 0) (map snd (places net))))"
  from for_arcs_inv[OF table_inv_init, of net "arcs net"] obtain d where
    f: "for_arcs net (arcs net) (init_transitions_dict (map fst (transitions net)) []) = Inr d"
    and inv: "table_inv net (arcs net) d"
    by auto
  have c: "convert_net_to_bfs_format net = Inr (init, d)"
    by (simp add: convert_net_to_bfs_format_def f init_def)
  have i: "fset init = {place_id p | p. p \<in> snd ` set (places net) \<and> initial_marking p > 0}"
    by (auto simp: init_def fset_of_list.rep_eq)
  have dist: "distinct (map fst d)" using inv by (simp add: table_inv_def)
  have m: "map_of d = (\<lambda>t. if is_transition net t
              then Some [''pre'' \<mapsto> pre_arcs net (arcs net) t, ''post'' \<mapsto> post_arcs net (arcs net) t]
              else None)"
    using inv by (simp add: table_inv_def)
  have "dom (map_of d) = {t. is_transition net t}"
    unfolding m by (auto split: if_splits)
  then have keys: "fst ` set d = fst ` set (transitions net)"
    by (auto simp: dom_map_of_conv_image_fst is_transition_def)
  have wf: "wf_transitions d" using inv by (rule table_inv_wf)
  have t: "\<forall>t. is_transition net t \<longrightarrow>
          (\<exists>pre post. map_of d t = Some [''pre'' \<mapsto> pre, ''post'' \<mapsto> post]
             \<and> fset pre = {source a | a. a \<in> set (arcs net) \<and> is_place net (source a)
                             \<and> target a = t}
             \<and> fset post = {target a | a. a \<in> set (arcs net) \<and> source a = t
                             \<and> is_place net (target a)
                             \<and> \<not> (is_place net t \<and> is_transition net (target a))})"
  proof (intro allI impI)
    fix t assume tr: "is_transition net t"
    have "map_of d t = Some [''pre'' \<mapsto> pre_arcs net (arcs net) t, ''post'' \<mapsto> post_arcs net (arcs net) t]"
      using tr by (simp add: m)
    with fset_pre_arcs[OF tr, of "arcs net"] fset_post_arcs[OF tr, of "arcs net"]
    show "\<exists>pre post. map_of d t = Some [''pre'' \<mapsto> pre, ''post'' \<mapsto> post]
             \<and> fset pre = {source a | a. a \<in> set (arcs net) \<and> is_place net (source a)
                             \<and> target a = t}
             \<and> fset post = {target a | a. a \<in> set (arcs net) \<and> source a = t
                             \<and> is_place net (target a)
                             \<and> \<not> (is_place net t \<and> is_transition net (target a))}"
      by (intro exI conjI)
  qed
  show ?thesis
    by (rule exI[of _ init], rule exI[of _ d])
       (rule conjI[OF c conjI[OF i conjI[OF dist conjI[OF keys conjI[OF wf t]]]]])
qed

section \<open>The engine on the store\<close>

lemma same_except_refl: "same_except a b h h"
  by (simp add: same_except_def)

lemma same_except_trans:
  "same_except a b h h1 \<Longrightarrow> same_except a b h1 h2 \<Longrightarrow> same_except a b h h2"
  by (simp add: same_except_def)

lemma same_except_update1: "same_except a b h (h[a := ob])"
  by (simp add: same_except_def)

lemma same_except_update2: "same_except a b h (h[b := ob])"
  by (simp add: same_except_def)

lemma visited_add_frame: "visited_add h a x = (h', r) \<Longrightarrow> same_except a b h h'"
  by (auto simp: visited_add_def same_except_refl same_except_update1 split: sum.splits)

lemma deque_append_frame: "deque_append h b x = (h', r) \<Longrightarrow> same_except a b h h'"
  by (auto simp: deque_append_def same_except_refl same_except_update2 split: sum.splits)

lemma add_append_frame:
  "visited_add h a x = (h1, r1) \<Longrightarrow> deque_append h1 b y = (h2, r2) \<Longrightarrow> same_except a b h h2"
  by (rule same_except_trans[OF visited_add_frame deque_append_frame])

lemma add_append_then_frame:
  "visited_add h a x = (h1, r1) \<Longrightarrow> deque_append h1 b y = (h2, r2) \<Longrightarrow>
     same_except a b h2 h' \<Longrightarrow> same_except a b h h'"
  by (rule same_except_trans[OF add_append_frame])

lemma for_transitions_heap_frame:
  "for_transitions_heap cur items av aq h = (h', r) \<Longrightarrow> same_except av aq h h'"
proof (induction items arbitrary: h)
  case Nil
  then show ?case by (simp add: same_except_refl)
next
  case (Cons item rest)
  obtain t ai where item: "item = (t, ai)" by (cases item)
  note IH = Cons.IH
  from Cons.prems show ?case
    unfolding item
    by (auto simp: Let_def same_except_refl
        split: sum.splits option.splits if_splits prod.splits
        dest!: IH
        intro: visited_add_frame add_append_frame add_append_then_frame)
qed

lemma bfs_loop_heap_frame_aux:
  assumes "bfs_loop_heap a_table a_visited a_queue h0 = Some y0"
  shows "same_except a_visited a_queue h0 (fst y0)"
  apply (rule bfs_loop_heap.raw_induct[where P = "\<lambda>at av aq h y. same_except av aq h (fst y)",
        OF _ assms])
  subgoal premises p for bfs at av aq h y
  proof (cases "get_deque h aq")
    case (Inl e)
    with p(2) show ?thesis by (auto intro: same_except_refl)
  next
    case (Inr q)
    show ?thesis
    proof (cases q)
      case Nil
      with Inr p(2) show ?thesis by (auto intro: same_except_refl)
    next
      case (Cons c q')
      let ?h1 = "h[aq := DequeObj q']"
      have s1: "same_except av aq h ?h1" by (rule same_except_update2)
      show ?thesis
      proof (cases "get_table ?h1 at")
        case (Inl e)
        with Inr Cons p(2) s1 show ?thesis by (auto simp: Let_def)
      next
        case items: (Inr items)
        obtain h2 r2 where f: "for_transitions_heap c items av aq ?h1 = (h2, r2)"
          by (cases "for_transitions_heap c items av aq ?h1")
        have s2: "same_except av aq h h2"
          using s1 for_transitions_heap_frame[OF f] by (rule same_except_trans)
        show ?thesis
        proof (cases r2)
          case (Inl e)
          with Inr Cons items f p(2) have "y = (h2, Inl e)" by (simp add: Let_def)
          with s2 show ?thesis by simp
        next
          case r: (Inr u)
          with Inr Cons items f p(2) have "bfs at av aq h2 = Some y" by (simp add: Let_def)
          from p(1)[OF this] s2 show ?thesis by (rule same_except_trans[rotated])
        qed
      qed
    qed
  qed
  done

lemma bfs_loop_heap_frame:
  "bfs_loop_heap at av aq h = Some (h', r) \<Longrightarrow> same_except av aq h h'"
  using bfs_loop_heap_frame_aux[of at av aq h "(h', r)"] by simp

lemma find_reachable_markings_bfs_heap_frame:
  assumes "find_reachable_markings_bfs_heap h a_start a_table = Some (h', r)"
  shows "length h \<le> length h' \<and> take (length h) h' = h"
proof (cases "get_set h a_start")
  case (Inl e)
  with assms show ?thesis by (simp add: find_reachable_markings_bfs_heap_def)
next
  case (Inr s)
  let ?av = "length h" and ?aq = "Suc (length h)"
  let ?h2 = "(h @ [VisitedObj {||}]) @ [DequeObj []]"
  have ext: "length h \<le> length h' \<and> take (length h) h' = h"
    if "same_except ?av ?aq ?h2 h'" for h'
  proof -
    from that have len: "length h' = Suc (Suc (length h))"
      and nth: "\<And>x. x < length h \<Longrightarrow> h' ! x = ?h2 ! x"
      by (simp_all add: same_except_def)
    have "take (length h) h' = h"
    proof (rule nth_equalityI)
      show "length (take (length h) h') = length h" using len by simp
      fix i assume "i < length (take (length h) h')"
      then have i: "i < length h" by simp
      then show "take (length h) h' ! i = h ! i" using nth[OF i] by (simp add: nth_append)
    qed
    with len show ?thesis by simp
  qed
  obtain h3 r3 where v: "visited_add ?h2 ?av s = (h3, r3)" by (cases "visited_add ?h2 ?av s")
  obtain h4 r4 where d: "deque_append h3 ?aq s = (h4, r4)" by (cases "deque_append h3 ?aq s")
  have s3: "same_except ?av ?aq ?h2 h3" using v by (rule visited_add_frame)
  have s4: "same_except ?av ?aq ?h2 h4" using v d by (rule add_append_frame)
  show ?thesis
  proof (cases r3)
    case (Inl e)
    with assms Inr v have "h' = h3"
      by (simp add: find_reachable_markings_bfs_heap_def alloc_def)
    with s3 show ?thesis by (simp only: ext)
  next
    case r3: (Inr u)
    show ?thesis
    proof (cases r4)
      case (Inl e)
      with assms Inr v d r3 have "h' = h4"
        by (simp add: find_reachable_markings_bfs_heap_def alloc_def)
      with s4 show ?thesis by (simp only: ext)
    next
      case r4: (Inr u')
      from assms Inr v d r3 r4 obtain r5 where
        "bfs_loop_heap a_table ?av ?aq h4 = Some (h', r5)"
        by (auto simp: find_reachable_markings_bfs_heap_def alloc_def
            split: option.splits sum.splits)
      from bfs_loop_heap_frame[OF this] s4 have "same_except ?av ?aq ?h2 h'"
        by (rule same_except_trans[rotated])
      then show ?thesis by (rule ext)
    qed
  qed
qed

lemma scratch_not_set:
  "scratch_obj ob \<Longrightarrow> (case ob of SetObj s \<Rightarrow> Inr s | _ \<Rightarrow> Inl TypeError) = Inl TypeError"
  by (cases ob) (simp_all add: scratch_obj_def)

lemma scratch_not_info:
  "scratch_obj ob \<Longrightarrow> (case ob of InfoObj m \<Rightarrow> Inr m | _ \<Rightarrow> Inl TypeError) = Inl TypeError"
  by (cases ob) (simp_all add: scratch_obj_def)

lemma scratch_not_table:
  "scratch_obj ob \<Longrightarrow> (case ob of TableObj m \<Rightarrow> Inr m | _ \<Rightarrow> Inl TypeError) = Inl TypeError"
  by (cases ob) (simp_all add: scratch_obj_def)

lemma get_set_update:
  assumes "a < length h" "scratch_obj (h ! a)" "scratch_obj ob"
  shows "get_set (h[a := ob]) = get_set h"
proof (rule ext)
  fix x
  show "get_set (h[a := ob]) x = get_set h x"
  proof (cases "x = a")
    case True
    then show ?thesis using assms
      by (simp add: get_set_def deref_def scratch_not_set)
  next
    case False
    then show ?thesis by (simp add: get_set_def deref_def)
  qed
qed

lemma get_info_update:
  assumes "a < length h" "scratch_obj (h ! a)" "scratch_obj ob"
  shows "get_info (h[a := ob]) = get_info h"
proof (rule ext)
  fix x
  show "get_info (h[a := ob]) x = get_info h x"
  proof (cases "x = a")
    case True
    then show ?thesis using assms
      by (simp add: get_info_def deref_def scratch_not_info)
  next
    case False
    then show ?thesis by (simp add: get_info_def deref_def)
  qed
qed

lemma get_table_update:
  assumes "a < length h" "scratch_obj (h ! a)" "scratch_obj ob"
  shows "get_table (h[a := ob]) = get_table h"
proof (rule ext)
  fix x
  show "get_table (h[a := ob]) x = get_table h x"
  proof (cases "x = a")
    case True
    then show ?thesis using assms
      by (simp add: get_table_def deref_def scratch_not_table)
  next
    case False
    then show ?thesis by (simp add: get_table_def deref_def)
  qed
qed

lemma info_ok_cong:
  assumes "get_set h' = get_set h" and "get_info h' = get_info h"
  shows "info_ok h' = info_ok h"
  unfolding info_ok_def is_set_def assms by (rule refl)

lemma info_of_cong:
  assumes "get_set h' = get_set h" and "get_info h' = get_info h"
  shows "info_of h' = info_of h"
  unfolding info_of_def assms by (rule refl)

lemma items_of_cong:
  assumes "get_set h' = get_set h" and "get_info h' = get_info h"
  shows "items_of h' = items_of h"
  unfolding items_of_def info_of_cong[OF assms] by (rule refl)

lemma heap_state_neq: "heap_state h av aq V Q \<Longrightarrow> av \<noteq> aq"
  by (auto simp: heap_state_def)

lemma heap_state_get:
  assumes "heap_state h av aq V Q"
  shows "get_visited h av = Inr V" and "get_deque h aq = Inr Q"
  using assms by (simp_all add: heap_state_def get_visited_def get_deque_def deref_def)

lemma heap_state_id:
  assumes "heap_state h av aq V Q"
  shows "h[av := VisitedObj V, aq := DequeObj Q] = h"
proof -
  have "h[av := VisitedObj V] = h"
    using assms by (simp add: heap_state_def list_update_same_conv)
  moreover have "h[aq := DequeObj Q] = h"
    using assms by (simp add: heap_state_def list_update_same_conv)
  ultimately show ?thesis by simp
qed

lemma heap_state_set:
  assumes "heap_state h av aq V Q"
  shows "heap_state (h[av := VisitedObj V', aq := DequeObj Q']) av aq V' Q'"
  using assms heap_state_neq[OF assms] by (simp add: heap_state_def)

lemma heap_state_set_again:
  assumes "heap_state h av aq V Q"
  shows "(h[av := VisitedObj V1, aq := DequeObj Q1])[av := VisitedObj V2, aq := DequeObj Q2]
           = h[av := VisitedObj V2, aq := DequeObj Q2]"
proof -
  have ne: "av \<noteq> aq" using assms by (rule heap_state_neq)
  have "(h[av := VisitedObj V1, aq := DequeObj Q1])[av := VisitedObj V2]
          = h[av := VisitedObj V2, aq := DequeObj Q1]"
    using ne by (simp add: list_update_swap[of aq av])
  then show ?thesis by simp
qed

lemma heap_state_reads:
  assumes "heap_state h av aq V Q"
  shows "get_set (h[av := VisitedObj V', aq := DequeObj Q']) = get_set h"
    and "get_info (h[av := VisitedObj V', aq := DequeObj Q']) = get_info h"
    and "get_table (h[av := VisitedObj V', aq := DequeObj Q']) = get_table h"
proof -
  have a: "av < length h" "scratch_obj (h ! av)" "scratch_obj (VisitedObj V')"
    using assms by (simp_all add: heap_state_def scratch_obj_def)
  have b: "aq < length (h[av := VisitedObj V'])" "scratch_obj (h[av := VisitedObj V'] ! aq)"
    "scratch_obj (DequeObj Q')"
    using assms heap_state_neq[OF assms] by (simp_all add: heap_state_def scratch_obj_def)
  show "get_set (h[av := VisitedObj V', aq := DequeObj Q']) = get_set h"
    using get_set_update[OF b] get_set_update[OF a] by simp
  show "get_info (h[av := VisitedObj V', aq := DequeObj Q']) = get_info h"
    using get_info_update[OF b] get_info_update[OF a] by simp
  show "get_table (h[av := VisitedObj V', aq := DequeObj Q']) = get_table h"
    using get_table_update[OF b] get_table_update[OF a] by simp
qed

lemma add_then_append:
  assumes "heap_state h av aq V Q"
  shows "visited_add h av n = (h[av := VisitedObj (finsert n V)], Inr ())"
    and "deque_append (h[av := VisitedObj (finsert n V)]) aq n
           = (h[av := VisitedObj (finsert n V), aq := DequeObj (Q @ [n])], Inr ())"
proof -
  show "visited_add h av n = (h[av := VisitedObj (finsert n V)], Inr ())"
    by (simp add: visited_add_def heap_state_get[OF assms])
  have "get_deque (h[av := VisitedObj (finsert n V)]) aq = Inr Q"
    using assms heap_state_neq[OF assms] by (simp add: heap_state_def get_deque_def deref_def)
  then show "deque_append (h[av := VisitedObj (finsert n V)]) aq n
           = (h[av := VisitedObj (finsert n V), aq := DequeObj (Q @ [n])], Inr ())"
    by (simp add: deque_append_def)
qed

lemma info_ok_reads:
  assumes "info_ok h ai"
  obtains m ap apo P Po where "get_info h ai = Inr m" "m ''pre'' = Some ap" "m ''post'' = Some apo"
    "get_set h ap = Inr P" "get_set h apo = Inr Po"
    "info_of h ai ''pre'' = Some P" "info_of h ai ''post'' = Some Po"
proof -
  from assms obtain m where m: "get_info h ai = Inr m"
    by (cases "get_info h ai") (simp_all add: info_ok_def)
  from assms m obtain ap apo where k: "m ''pre'' = Some ap" "m ''post'' = Some apo"
    by (cases "m ''pre''"; cases "m ''post''") (simp_all add: info_ok_def)
  from assms m k have s: "is_set h ap" "is_set h apo" by (simp_all add: info_ok_def)
  from s(1) obtain P where P: "get_set h ap = Inr P"
    by (cases "get_set h ap") (simp_all add: is_set_def)
  from s(2) obtain Po where Po: "get_set h apo = Inr Po"
    by (cases "get_set h apo") (simp_all add: is_set_def)
  have "info_of h ai ''pre'' = Some P" "info_of h ai ''post'' = Some Po"
    by (simp_all add: info_of_def m k P Po)
  with m k P Po show ?thesis by (rule that)
qed

lemma for_transitions_heap_refines:
  assumes "heap_state h av aq V Q"
    and "list_all (\<lambda>(t, ai). info_ok h ai) items"
  shows "\<exists>V' Q'. for_transitions cur (items_of h items) (V, Q) = Inr (V', Q')
       \<and> for_transitions_heap cur items av aq h
           = (h[av := VisitedObj V', aq := DequeObj Q'], Inr ())"
  using assms
proof (induction items arbitrary: h V Q)
  case Nil
  then show ?case by (simp add: items_of_def heap_state_id)
next
  case (Cons item rest)
  obtain t ai where item: "item = (t, ai)" by (cases item)
  from Cons.prems(2) have ok: "info_ok h ai" and oks: "list_all (\<lambda>(t, ai). info_ok h ai) rest"
    by (simp_all add: item)
  from ok obtain m ap apo P Po where
    r: "get_info h ai = Inr m" "m ''pre'' = Some ap" "m ''post'' = Some apo"
       "get_set h ap = Inr P" "get_set h apo = Inr Po"
    and i: "info_of h ai ''pre'' = Some P" "info_of h ai ''post'' = Some Po"
    by (rule info_ok_reads)
  note st = Cons.prems(1)
  have gv: "get_visited h av = Inr V" using st by (rule heap_state_get)
  have items: "items_of h (item # rest) = (t, info_of h ai) # items_of h rest"
    by (simp add: items_of_def item)
  let ?n = "(cur |-| P) |\<union>| Po"
  show ?case
  proof (cases "P |\<subseteq>| cur \<and> ?n |\<notin>| V")
    case False
    from Cons.IH[OF st oks] obtain V' Q' where
      a: "for_transitions cur (items_of h rest) (V, Q) = Inr (V', Q')"
      and b: "for_transitions_heap cur rest av aq h
                = (h[av := VisitedObj V', aq := DequeObj Q'], Inr ())"
      by blast
    have "for_transitions cur (items_of h (item # rest)) (V, Q) = Inr (V', Q')"
      using False a by (auto simp: items i Let_def)
    moreover have "for_transitions_heap cur (item # rest) av aq h
                = (h[av := VisitedObj V', aq := DequeObj Q'], Inr ())"
      using False b by (auto simp: item r gv Let_def)
    ultimately show ?thesis by blast
  next
    case True
    let ?h2 = "h[av := VisitedObj (finsert ?n V), aq := DequeObj (Q @ [?n])]"
    have st2: "heap_state ?h2 av aq (finsert ?n V) (Q @ [?n])"
      using st by (rule heap_state_set)
    have rd: "get_set ?h2 = get_set h" "get_info ?h2 = get_info h"
      using heap_state_reads[OF st] by simp_all
    have oks2: "list_all (\<lambda>(t, ai). info_ok ?h2 ai) rest"
      using oks unfolding info_ok_cong[OF rd] .
    from Cons.IH[OF st2 oks2] obtain V' Q' where
      a: "for_transitions cur (items_of ?h2 rest) (finsert ?n V, Q @ [?n]) = Inr (V', Q')"
      and b: "for_transitions_heap cur rest av aq ?h2
                = (?h2[av := VisitedObj V', aq := DequeObj Q'], Inr ())"
      by blast
    have a': "for_transitions cur (items_of h rest) (finsert ?n V, Q @ [?n]) = Inr (V', Q')"
      using a unfolding items_of_cong[OF rd] .
    have b': "for_transitions_heap cur rest av aq ?h2
                = (h[av := VisitedObj V', aq := DequeObj Q'], Inr ())"
      using b unfolding heap_state_set_again[OF st] .
    have "for_transitions cur (items_of h (item # rest)) (V, Q) = Inr (V', Q')"
      using True a' by (simp add: items i Let_def)
    moreover have "for_transitions_heap cur (item # rest) av aq h
                = (h[av := VisitedObj V', aq := DequeObj Q'], Inr ())"
      using True b' by (simp add: item r gv Let_def add_then_append[OF st])
    ultimately show ?thesis by blast
  qed
qed

lemma items_of_wf:
  "list_all (\<lambda>(t, ai). info_ok h ai) items \<Longrightarrow> wf_transitions (items_of h items)"
proof (induction items)
  case Nil
  then show ?case by (simp add: items_of_def wf_transitions_def)
next
  case (Cons item rest)
  obtain t ai where item: "item = (t, ai)" by (cases item)
  from Cons.prems have ok: "info_ok h ai" and oks: "list_all (\<lambda>(t, ai). info_ok h ai) rest"
    by (simp_all add: item)
  from ok obtain P Po where "info_of h ai ''pre'' = Some P" "info_of h ai ''post'' = Some Po"
    by (rule info_ok_reads)
  with Cons.IH[OF oks] show ?case
    by (simp add: items_of_def item wf_transitions_def)
qed

lemma heap_result_Some_Inr:
  "heap_result x = Some (Inr h) \<Longrightarrow> x = Some (h, Inr ())"
  by (cases x) (auto simp: heap_result_def split: sum.splits)

lemma bfs_loop_heap_eq:
  assumes base: "heap_state hb av aq V0 Q0"
    and tab: "get_table hb at = Inr items"
    and ok: "list_all (\<lambda>(t, ai). info_ok hb ai) items"
  shows "heap_result (bfs_loop_heap at av aq (hb[av := VisitedObj V, aq := DequeObj Q])) =
     (if Q = [] then Some (Inr (hb[av := VisitedObj V, aq := DequeObj []]))
      else (case for_transitions (Q ! 0) (items_of hb items) (V, take 0 Q @ drop (Suc 0) Q) of
              Inl e \<Rightarrow> Some (Inl e)
            | Inr (V', Q') \<Rightarrow>
                heap_result (bfs_loop_heap at av aq (hb[av := VisitedObj V', aq := DequeObj Q']))))"
proof -
  let ?h = "hb[av := VisitedObj V, aq := DequeObj Q]"
  have st: "heap_state ?h av aq V Q" using base by (rule heap_state_set)
  have gd: "get_deque ?h aq = Inr Q" using st by (rule heap_state_get)
  show ?thesis
  proof (cases Q)
    case Nil
    then show ?thesis using gd
      by (subst bfs_loop_heap.simps) (simp add: heap_result_def)
  next
    case (Cons c q')
    let ?hc = "hb[av := VisitedObj V, aq := DequeObj (c # q')]"
    let ?h1 = "hb[av := VisitedObj V, aq := DequeObj q']"
    have stc: "heap_state ?hc av aq V (c # q')" using base by (rule heap_state_set)
    have gdc: "get_deque ?hc aq = Inr (c # q')" using stc by (rule heap_state_get)
    have h1: "?hc[aq := DequeObj q'] = ?h1" by simp
    have st1: "heap_state ?h1 av aq V q'" using base by (rule heap_state_set)
    have rd: "get_set ?h1 = get_set hb" "get_info ?h1 = get_info hb" "get_table ?h1 = get_table hb"
      using heap_state_reads[OF base] by simp_all
    have tab1: "get_table ?h1 at = Inr items" using tab rd(3) by simp
    have ok1: "list_all (\<lambda>(t, ai). info_ok ?h1 ai) items"
      using ok unfolding info_ok_cong[OF rd(1,2)] .
    from for_transitions_heap_refines[OF st1 ok1, of c] obtain V' Q' where
      a: "for_transitions c (items_of ?h1 items) (V, q') = Inr (V', Q')"
      and b: "for_transitions_heap c items av aq ?h1
                = (?h1[av := VisitedObj V', aq := DequeObj Q'], Inr ())"
      by blast
    have a': "for_transitions c (items_of hb items) (V, q') = Inr (V', Q')"
      using a unfolding items_of_cong[OF rd(1,2)] .
    have b': "for_transitions_heap c items av aq ?h1
                = (hb[av := VisitedObj V', aq := DequeObj Q'], Inr ())"
      using b unfolding heap_state_set_again[OF base] .
    have "bfs_loop_heap at av aq ?hc
            = bfs_loop_heap at av aq (hb[av := VisitedObj V', aq := DequeObj Q'])"
      by (subst bfs_loop_heap.simps) (simp only: gdc h1 tab1 b' Let_def sum.case list.case prod.case)
    then show ?thesis unfolding Cons using a' by simp
  qed
qed

lemma bfs_loop_heap_total:
  assumes base: "heap_state hb av aq V0 Q0"
    and tab: "get_table hb at = Inr items"
    and ok: "list_all (\<lambda>(t, ai). info_ok hb ai) items"
    and inv: "bfs_inv (items_of hb items) m0 V Q tr"
  shows "\<exists>R tr'. bfs_loop_heap at av aq (hb[av := VisitedObj V, aq := DequeObj Q])
            = Some (hb[av := VisitedObj R, aq := DequeObj []], Inr ())
          \<and> bfs_inv (items_of hb items) m0 R [] tr'"
proof -
  have wf: "wf_transitions (items_of hb items)" using ok by (rule items_of_wf)
  from worklist_total[where
      L = "\<lambda>V Q tr. heap_result (bfs_loop_heap at av aq (hb[av := VisitedObj V, aq := DequeObj Q]))"
      and out = "\<lambda>V tr. hb[av := VisitedObj V, aq := DequeObj []]" and sel = "\<lambda>Q. 0",
      OF wf bfs_loop_heap_eq[OF base tab ok] _ inv]
  obtain R tr' where
    r: "heap_result (bfs_loop_heap at av aq (hb[av := VisitedObj V, aq := DequeObj Q]))
          = Some (Inr (hb[av := VisitedObj R, aq := DequeObj []]))"
    and i: "bfs_inv (items_of hb items) m0 R [] tr'"
    by auto
  from heap_result_Some_Inr[OF r] i show ?thesis by blast
qed

lemma get_set_append:
  assumes "scratch_obj ob"
  shows "get_set (h @ [ob]) = get_set h"
proof (rule ext)
  fix x
  show "get_set (h @ [ob]) x = get_set h x"
    using assms by (simp add: get_set_def deref_def nth_append scratch_not_set)
qed

lemma get_info_append:
  assumes "scratch_obj ob"
  shows "get_info (h @ [ob]) = get_info h"
proof (rule ext)
  fix x
  show "get_info (h @ [ob]) x = get_info h x"
    using assms by (simp add: get_info_def deref_def nth_append scratch_not_info)
qed

lemma get_table_append:
  assumes "scratch_obj ob"
  shows "get_table (h @ [ob]) = get_table h"
proof (rule ext)
  fix x
  show "get_table (h @ [ob]) x = get_table h x"
    using assms by (simp add: get_table_def deref_def nth_append scratch_not_table)
qed

lemma heap_run_ok:
  assumes ok: "heap_ok h a_start a_table"
  shows "\<exists>h' R. find_reachable_markings_bfs_heap h a_start a_table = Some (h', Inr (length h))
      \<and> get_visited h' (length h) = Inr R
      \<and> find_reachable_markings_bfs (start_of h a_start) (table_of h a_table) = Some (Inr R)
      \<and> get_set h' = get_set h \<and> get_info h' = get_info h \<and> get_table h' = get_table h"
proof -
  from ok obtain s where s: "get_set h a_start = Inr s"
    by (cases "get_set h a_start") (simp_all add: heap_ok_def is_set_def)
  from ok obtain items where tab: "get_table h a_table = Inr items"
    and oks: "list_all (\<lambda>(t, ai). info_ok h ai) items"
    by (cases "get_table h a_table") (simp_all add: heap_ok_def)
  let ?av = "length h" and ?aq = "Suc (length h)"
  define hb where "hb = h @ [VisitedObj {||}, DequeObj []]"
  have hb2: "hb = (h @ [VisitedObj {||}]) @ [DequeObj []]" by (simp add: hb_def)
  have sc: "scratch_obj (VisitedObj {||})" "scratch_obj (DequeObj [])"
    by (simp_all add: scratch_obj_def)
  have rd: "get_set hb = get_set h" "get_info hb = get_info h" "get_table hb = get_table h"
    unfolding hb2
    by (simp_all only: get_set_append[OF sc(2)] get_set_append[OF sc(1)]
        get_info_append[OF sc(2)] get_info_append[OF sc(1)]
        get_table_append[OF sc(2)] get_table_append[OF sc(1)])
  have base: "heap_state hb ?av ?aq {||} []"
    by (simp add: heap_state_def nth_append hb_def)
  have tabb: "get_table hb a_table = Inr items" using tab rd(3) by simp
  have okb: "list_all (\<lambda>(t, ai). info_ok hb ai) items"
    using oks unfolding info_ok_cong[OF rd(1,2)] .
  have its: "items_of hb items = items_of h items"
    unfolding items_of_cong[OF rd(1,2)] by (rule refl)
  from bfs_loop_heap_total[OF base tabb okb bfs_inv_init, of s]
  obtain R tr where
    run: "bfs_loop_heap a_table ?av ?aq (hb[?av := VisitedObj {|s|}, ?aq := DequeObj [s]])
            = Some (hb[?av := VisitedObj R, ?aq := DequeObj []], Inr ())"
    and inv: "bfs_inv (items_of hb items) s R [] tr"
    by blast
  let ?h' = "hb[?av := VisitedObj R, ?aq := DequeObj []]"
  have st': "heap_state ?h' ?av ?aq R []" using base by (rule heap_state_set)
  have add: "visited_add hb ?av s = (hb[?av := VisitedObj {|s|}], Inr ())"
    and app: "deque_append (hb[?av := VisitedObj {|s|}]) ?aq s
                = (hb[?av := VisitedObj {|s|}, ?aq := DequeObj [s]], Inr ())"
    using add_then_append[OF base, of s] by simp_all
  have r1: "find_reachable_markings_bfs_heap h a_start a_table = Some (?h', Inr (length h))"
    by (simp add: find_reachable_markings_bfs_heap_def alloc_def s hb_def[symmetric] add app run)
  have r2: "get_visited ?h' (length h) = Inr R" using st' by (rule heap_state_get)
  have wf: "wf_transitions (items_of h items)" using oks by (rule items_of_wf)
  from bfs_wf[OF wf, of s] obtain R' tr' where
    p: "find_reachable_markings_bfs s (items_of h items) = Some (Inr R')"
    and inv': "bfs_inv (items_of h items) s R' [] tr'"
    by blast
  have "R' = R" using inv[unfolded its] inv' by (rule bfs_inv_final_unique) simp
  then have r3: "find_reachable_markings_bfs (start_of h a_start) (table_of h a_table)
      = Some (Inr R)"
    using p by (simp add: start_of_def table_of_def s tab)
  have r4: "get_set ?h' = get_set h" "get_info ?h' = get_info h" "get_table ?h' = get_table h"
    using heap_state_reads[OF base, of R "[]"] rd by simp_all
  from r1 r2 r3 r4 show ?thesis by blast
qed

text \<open>
  Claim C9. Whenever a run ends, with a result or with an exception, every object that
  existed before it is unchanged; the run only creates and updates the two objects
  \<open>visited\<close> and \<open>queue\<close>. On a store whose objects have the expected kinds the run
  does end with a result, the \<open>start_marking\<close> set and the \<open>all_transitions\<close> table with
  every precondition and postcondition set hold the same values after the run as before it,
  and the returned set is the one the function computes on those values.
\<close>

theorem engine_leaves_arguments_unchanged:
  "(\<forall>h' r. find_reachable_markings_bfs_heap h a_start a_table = Some (h', r) \<longrightarrow>
       length h \<le> length h' \<and> take (length h) h' = h)
   \<and> (heap_ok h a_start a_table \<longrightarrow>
        (\<exists>h' R. find_reachable_markings_bfs_heap h a_start a_table = Some (h', Inr (length h))
           \<and> take (length h) h' = h
           \<and> start_of h' a_start = start_of h a_start
           \<and> table_of h' a_table = table_of h a_table
           \<and> get_visited h' (length h) = Inr R
           \<and> find_reachable_markings_bfs (start_of h a_start) (table_of h a_table)
               = Some (Inr R)))"
proof (rule conjI)
  show "\<forall>h' r. find_reachable_markings_bfs_heap h a_start a_table = Some (h', r) \<longrightarrow>
       length h \<le> length h' \<and> take (length h) h' = h"
    by (intro allI impI) (rule find_reachable_markings_bfs_heap_frame)
next
  show "heap_ok h a_start a_table \<longrightarrow>
        (\<exists>h' R. find_reachable_markings_bfs_heap h a_start a_table = Some (h', Inr (length h))
           \<and> take (length h) h' = h
           \<and> start_of h' a_start = start_of h a_start
           \<and> table_of h' a_table = table_of h a_table
           \<and> get_visited h' (length h) = Inr R
           \<and> find_reachable_markings_bfs (start_of h a_start) (table_of h a_table)
               = Some (Inr R))"
  proof (rule impI)
  assume ok: "heap_ok h a_start a_table"
  from heap_run_ok[OF ok] obtain h' R where
    run: "find_reachable_markings_bfs_heap h a_start a_table = Some (h', Inr (length h))"
    and vis: "get_visited h' (length h) = Inr R"
    and pure: "find_reachable_markings_bfs (start_of h a_start) (table_of h a_table)
                 = Some (Inr R)"
    and rd: "get_set h' = get_set h" "get_info h' = get_info h" "get_table h' = get_table h"
    by blast
  have fr: "take (length h) h' = h"
    using find_reachable_markings_bfs_heap_frame[OF run] by simp
  have st: "start_of h' a_start = start_of h a_start"
    unfolding start_of_def rd by (rule refl)
  have tb: "table_of h' a_table = table_of h a_table"
    unfolding table_of_def rd items_of_cong[OF rd(1,2)] by (rule refl)
  show "\<exists>h' R. find_reachable_markings_bfs_heap h a_start a_table = Some (h', Inr (length h))
           \<and> take (length h) h' = h
           \<and> start_of h' a_start = start_of h a_start
           \<and> table_of h' a_table = table_of h a_table
           \<and> get_visited h' (length h) = Inr R
           \<and> find_reachable_markings_bfs (start_of h a_start) (table_of h a_table)
               = Some (Inr R)"
    using run fr st tb vis pure by (intro exI conjI)
  qed
qed

section \<open>Concrete runs\<close>

theorem bfs_result_is_reachable_set_witness:
  "wf_transitions
     [(''t1'', [''pre'' \<mapsto> {|''p1''|}, ''post'' \<mapsto> {|''p2''|}]),
      (''t2'', [''pre'' \<mapsto> {|''p2''|}, ''post'' \<mapsto> {|''p1''|}])]
   \<and> (\<exists>R. find_reachable_markings_bfs {|''p1''|}
             [(''t1'', [''pre'' \<mapsto> {|''p1''|}, ''post'' \<mapsto> {|''p2''|}]),
              (''t2'', [''pre'' \<mapsto> {|''p2''|}, ''post'' \<mapsto> {|''p1''|}])] = Some (Inr R)
          \<and> (\<forall>m. m |\<in>| R \<longleftrightarrow>
                reachable
                  [(''t1'', [''pre'' \<mapsto> {|''p1''|}, ''post'' \<mapsto> {|''p2''|}]),
                   (''t2'', [''pre'' \<mapsto> {|''p2''|}, ''post'' \<mapsto> {|''p1''|}])]
                  {|''p1''|} m))"
proof -
  have wf: "wf_transitions
     [(''t1'', [''pre'' \<mapsto> {|''p1''|}, ''post'' \<mapsto> {|''p2''|}]),
      (''t2'', [''pre'' \<mapsto> {|''p2''|}, ''post'' \<mapsto> {|''p1''|}])]"
    by (simp add: wf_transitions_def)
  from bfs_result_is_reachable_set[OF wf, of "{|''p1''|}"] wf show ?thesis by blast
qed

theorem bfs_total_on_well_formed_witness:
  "wf_transitions [(''t1'', [''pre'' \<mapsto> {|''p1'', ''p2''|}, ''post'' \<mapsto> {|''p3''|}])]
   \<and> (\<exists>R. find_reachable_markings_bfs {|''p1''|}
              [(''t1'', [''pre'' \<mapsto> {|''p1'', ''p2''|}, ''post'' \<mapsto> {|''p3''|}])]
            = Some (Inr R))"
proof -
  have wf: "wf_transitions
     [(''t1'', [''pre'' \<mapsto> {|''p1'', ''p2''|}, ''post'' \<mapsto> {|''p3''|}])]"
    by (simp add: wf_transitions_def)
  from bfs_total_on_well_formed[OF wf, of "{|''p1''|}"] wf show ?thesis by blast
qed

lemma scenario_chain:
  "find_reachable_markings_bfs {|''p1''|}
     [(''t1'', [''pre'' \<mapsto> {|''p1''|}, ''post'' \<mapsto> {|''p2''|}]),
      (''t2'', [''pre'' \<mapsto> {|''p2''|}, ''post'' \<mapsto> {|''p3''|}])]
   = Some (Inr {|{|''p3''|}, {|''p2''|}, {|''p1''|}|})"
  by (simp add: find_reachable_markings_bfs_def bfs_loop.simps Let_def)

theorem bfs_markings_within_places_witness:
  "find_reachable_markings_bfs {|''p1''|}
     [(''t1'', [''pre'' \<mapsto> {|''p1''|}, ''post'' \<mapsto> {|''p2''|}]),
      (''t2'', [''pre'' \<mapsto> {|''p2''|}, ''post'' \<mapsto> {|''p3''|}])]
     = Some (Inr {|{|''p3''|}, {|''p2''|}, {|''p1''|}|})
   \<and> {|''p3''|} |\<in>| {|{|''p3''|}, {|''p2''|}, {|''p1''|}|}
   \<and> {|''p3''|} |\<subseteq>| {|''p1''|} |\<union>|
        post_places
          [(''t1'', [''pre'' \<mapsto> {|''p1''|}, ''post'' \<mapsto> {|''p2''|}]),
           (''t2'', [''pre'' \<mapsto> {|''p2''|}, ''post'' \<mapsto> {|''p3''|}])]"
proof -
  have m: "{|''p3''|} |\<in>| {|{|''p3''|}, {|''p2''|}, {|''p1''|}|}" by simp
  from bfs_markings_within_places[OF scenario_chain m] scenario_chain m show ?thesis by blast
qed

lemma scenario_cycle:
  "find_reachable_markings_bfs {|''p1''|}
     [(''t1'', [''pre'' \<mapsto> {|''p1''|}, ''post'' \<mapsto> {|''p2''|}]),
      (''t2'', [''pre'' \<mapsto> {|''p2''|}, ''post'' \<mapsto> {|''p1''|}])]
   = Some (Inr {|{|''p2''|}, {|''p1''|}|})"
  by (simp add: find_reachable_markings_bfs_def bfs_loop.simps Let_def)

theorem bfs_terminates_bounded_witness:
  "find_reachable_markings_bfs {|''p1''|}
     [(''t1'', [''pre'' \<mapsto> {|''p1''|}, ''post'' \<mapsto> {|''p2''|}]),
      (''t2'', [''pre'' \<mapsto> {|''p2''|}, ''post'' \<mapsto> {|''p1''|}])]
     = Some (Inr {|{|''p2''|}, {|''p1''|}|})
   \<and> fcard {|{|''p2''|}, {|''p1''|}|}
       \<le> 2 ^ fcard (referenced_places {|''p1''|}
            [(''t1'', [''pre'' \<mapsto> {|''p1''|}, ''post'' \<mapsto> {|''p2''|}]),
             (''t2'', [''pre'' \<mapsto> {|''p2''|}, ''post'' \<mapsto> {|''p1''|}])])
   \<and> (\<exists>expanded. find_reachable_markings_bfs_traced {|''p1''|}
          [(''t1'', [''pre'' \<mapsto> {|''p1''|}, ''post'' \<mapsto> {|''p2''|}]),
           (''t2'', [''pre'' \<mapsto> {|''p2''|}, ''post'' \<mapsto> {|''p1''|}])]
          = Some (Inr ({|{|''p2''|}, {|''p1''|}|}, expanded))
        \<and> distinct expanded \<and> set expanded = fset {|{|''p2''|}, {|''p1''|}|})"
  using bfs_terminates_bounded[of "{|''p1''|}"
     "[(''t1'', [''pre'' \<mapsto> {|''p1''|}, ''post'' \<mapsto> {|''p2''|}]),
      (''t2'', [''pre'' \<mapsto> {|''p2''|}, ''post'' \<mapsto> {|''p1''|}])]"]
  unfolding scenario_cycle by blast

theorem bfs_order_independent_witness:
  "wf_transitions
     [(''t1'', [''pre'' \<mapsto> {|''p1''|}, ''post'' \<mapsto> {|''p2''|}]),
      (''t2'', [''pre'' \<mapsto> {|''p2''|}, ''post'' \<mapsto> {|''p3''|}])]
   \<and> mset [(''t2'', [''pre'' \<mapsto> {|''p2''|}, ''post'' \<mapsto> {|''p3''|}]),
            (''t1'', [''pre'' \<mapsto> {|''p1''|}, ''post'' \<mapsto> {|''p2''|}])]
     = mset [(''t1'', [''pre'' \<mapsto> {|''p1''|}, ''post'' \<mapsto> {|''p2''|}]),
            (''t2'', [''pre'' \<mapsto> {|''p2''|}, ''post'' \<mapsto> {|''p3''|}])]
   \<and> find_reachable_markings_bfs {|''p1''|}
       [(''t2'', [''pre'' \<mapsto> {|''p2''|}, ''post'' \<mapsto> {|''p3''|}]),
        (''t1'', [''pre'' \<mapsto> {|''p1''|}, ''post'' \<mapsto> {|''p2''|}])]
     = find_reachable_markings_bfs {|''p1''|}
       [(''t1'', [''pre'' \<mapsto> {|''p1''|}, ''post'' \<mapsto> {|''p2''|}]),
        (''t2'', [''pre'' \<mapsto> {|''p2''|}, ''post'' \<mapsto> {|''p3''|}])]
   \<and> find_reachable_markings_worklist (\<lambda>w. length w - 1) {|''p1''|}
       [(''t2'', [''pre'' \<mapsto> {|''p2''|}, ''post'' \<mapsto> {|''p3''|}]),
        (''t1'', [''pre'' \<mapsto> {|''p1''|}, ''post'' \<mapsto> {|''p2''|}])]
     = find_reachable_markings_bfs {|''p1''|}
       [(''t1'', [''pre'' \<mapsto> {|''p1''|}, ''post'' \<mapsto> {|''p2''|}]),
        (''t2'', [''pre'' \<mapsto> {|''p2''|}, ''post'' \<mapsto> {|''p3''|}])]"
proof -
  have wf: "wf_transitions
     [(''t1'', [''pre'' \<mapsto> {|''p1''|}, ''post'' \<mapsto> {|''p2''|}]),
      (''t2'', [''pre'' \<mapsto> {|''p2''|}, ''post'' \<mapsto> {|''p3''|}])]"
    by (simp add: wf_transitions_def)
  have p: "mset [(''t2'', [''pre'' \<mapsto> {|''p2''|}, ''post'' \<mapsto> {|''p3''|}]),
            (''t1'', [''pre'' \<mapsto> {|''p1''|}, ''post'' \<mapsto> {|''p2''|}])]
     = mset [(''t1'', [''pre'' \<mapsto> {|''p1''|}, ''post'' \<mapsto> {|''p2''|}]),
            (''t2'', [''pre'' \<mapsto> {|''p2''|}, ''post'' \<mapsto> {|''p3''|}])]"
    by (simp only: mset.simps add_mset_commute)
  from bfs_order_independent[OF wf p, of "{|''p1''|}" "\<lambda>w. length w - 1"] wf p
  show ?thesis by blast
qed

theorem successor_marking_witness:
  "wf_transitions [(''t1'', [''pre'' \<mapsto> {|''p1'', ''p2''|}, ''post'' \<mapsto> {|''p2'', ''p3''|}])]
   \<and> (\<exists>V' Q'. for_transitions {|''p1'', ''p2''|}
         [(''t1'', [''pre'' \<mapsto> {|''p1'', ''p2''|}, ''post'' \<mapsto> {|''p2'', ''p3''|}])]
         ({|{|''p1'', ''p2''|}|}, []) = Inr (V', Q')
       \<and> {|''p2'', ''p3''|} |\<in>| V')"
proof -
  let ?c = "{|''p1'', ''p2''|}" and ?post = "{|''p2'', ''p3''|}"
  let ?info = "[''pre'' \<mapsto> ?c, ''post'' \<mapsto> ?post]"
  let ?ts = "[(''t1'', ?info)]"
  have wf: "wf_transitions ?ts"
    by (simp add: wf_transitions_def)
  from successor_marking[OF wf, of ?c "{|?c|}" "[]"]
  obtain V' Q' where
    r: "for_transitions ?c ?ts ({|?c|}, []) = Inr (V', Q')"
    and p: "\<forall>t info pre post p.
        (t, info) \<in> set ?ts \<and> info ''pre'' = Some pre \<and> info ''post'' = Some post
          \<and> pre |\<subseteq>| ?c \<and> p |\<in>| post \<longrightarrow>
        (?c |-| pre) |\<union>| post |\<in>| V' \<and> p |\<in>| (?c |-| pre) |\<union>| post"
    by (elim exE conjE) (rule that)
  have "(?c |-| ?c) |\<union>| ?post |\<in>| V'"
    using p[rule_format, of "''t1''" ?info ?c ?post "''p2''"] by simp
  then have "?post |\<in>| V'" by simp
  with r have "\<exists>V' Q'. for_transitions ?c ?ts ({|?c|}, []) = Inr (V', Q') \<and> ?post |\<in>| V'"
    by (intro exI conjI)
  with wf show ?thesis by (rule conjI)
qed

theorem enabled_test_witness:
  "[''pre'' \<mapsto> {|''p2''|}, ''post'' \<mapsto> {|''p3''|}] ''pre'' = Some {|''p2''|}
   \<and> [''pre'' \<mapsto> {|''p2''|}, ''post'' \<mapsto> {|''p3''|}] ''post'' = Some {|''p3''|}
   \<and> for_transitions {|''p2''|} [(''t1'', [''pre'' \<mapsto> {|''p1''|}, ''post'' \<mapsto> {|''p2''|}])]
         ({|{|''p2''|}, {|''p1''|}|}, [])
       = Inr ({|{|''p2''|}, {|''p1''|}|}, [])
   \<and> ({|''p2''|} |-| {|''p2''|}) |\<union>| {|''p3''|} |\<notin>| {|{|''p2''|}, {|''p1''|}|}
   \<and> {|''p2''|} |\<subseteq>| {|''p2''|}
   \<and> for_transitions {|''p2''|}
         ([(''t1'', [''pre'' \<mapsto> {|''p1''|}, ''post'' \<mapsto> {|''p2''|}])]
          @ [(''t2'', [''pre'' \<mapsto> {|''p2''|}, ''post'' \<mapsto> {|''p3''|}])])
         ({|{|''p2''|}, {|''p1''|}|}, [])
       = Inr (finsert (({|''p2''|} |-| {|''p2''|}) |\<union>| {|''p3''|}) {|{|''p2''|}, {|''p1''|}|},
              [] @ [({|''p2''|} |-| {|''p2''|}) |\<union>| {|''p3''|}])"
proof -
  let ?i2 = "[''pre'' \<mapsto> {|''p2''|}, ''post'' \<mapsto> {|''p3''|}]"
  let ?V = "{|{|''p2''|}, {|''p1''|}|}"
  let ?before = "[(''t1'', [''pre'' \<mapsto> {|''p1''|}, ''post'' \<mapsto> {|''p2''|}])]"
  have a: "?i2 ''pre'' = Some {|''p2''|}" by simp
  have b: "?i2 ''post'' = Some {|''p3''|}" by simp
  have c: "for_transitions {|''p2''|} ?before (?V, []) = Inr (?V, [])" by simp
  have n: "({|''p2''|} |-| {|''p2''|}) |\<union>| {|''p3''|} |\<notin>| ?V" by simp
  have e: "{|''p2''|} |\<subseteq>| {|''p2''|}" by simp
  note iff = enabled_test[OF a b c, of "''t2''",
      THEN conjunct2, THEN conjunct2, THEN conjunct1, rule_format, OF n]
  note r = iffD2[OF iff e]
  show ?thesis by (rule conjI[OF a conjI[OF b conjI[OF c conjI[OF n conjI[OF e r]]]]])
qed

text \<open>
  The claim as first stated fails where an identifier names both a place and a transition:
  the arc from \<open>x\<close> to \<open>x\<close> is a transition-to-place arc, and the \<open>elif\<close> leaves the
  postcondition set of \<open>x\<close> empty.
\<close>

theorem convert_net_to_bfs_format_counterexample:
  "\<exists>init d. convert_net_to_bfs_format
       \<lparr>places = [(''x'', \<lparr>place_id = ''x'', initial_marking = 0\<rparr>)],
        transitions = [(''x'', ())],
        arcs = [\<lparr>source = ''x'', target = ''x''\<rparr>]\<rparr> = Inr (init, d)
     \<and> d = [(''x'', [''pre'' \<mapsto> {|''x''|}, ''post'' \<mapsto> {||}])]
     \<and> \<not> each_tp_arc_in_post
         \<lparr>places = [(''x'', \<lparr>place_id = ''x'', initial_marking = 0\<rparr>)],
          transitions = [(''x'', ())],
          arcs = [\<lparr>source = ''x'', target = ''x''\<rparr>]\<rparr> d"
  by (simp add: convert_net_to_bfs_format_def set_add_def each_tp_arc_in_post_def
      is_place_def is_transition_def info_upd_pre Let_def)

theorem convert_net_to_bfs_format_table_witness:
  "is_transition
     \<lparr>places = [(''p1'', \<lparr>place_id = ''p1'', initial_marking = 1\<rparr>),
                (''p2'', \<lparr>place_id = ''p2'', initial_marking = 0\<rparr>)],
      transitions = [(''t1'', ())],
      arcs = [\<lparr>source = ''p1'', target = ''t1''\<rparr>, \<lparr>source = ''t1'', target = ''p2''\<rparr>,
              \<lparr>source = ''p1'', target = ''p2''\<rparr>, \<lparr>source = ''zz'', target = ''t1''\<rparr>]\<rparr> ''t1''
   \<and> (\<exists>init d pre post.
        convert_net_to_bfs_format
          \<lparr>places = [(''p1'', \<lparr>place_id = ''p1'', initial_marking = 1\<rparr>),
                     (''p2'', \<lparr>place_id = ''p2'', initial_marking = 0\<rparr>)],
           transitions = [(''t1'', ())],
           arcs = [\<lparr>source = ''p1'', target = ''t1''\<rparr>, \<lparr>source = ''t1'', target = ''p2''\<rparr>,
                   \<lparr>source = ''p1'', target = ''p2''\<rparr>, \<lparr>source = ''zz'', target = ''t1''\<rparr>]\<rparr>
          = Inr (init, d)
        \<and> fset init = {''p1''}
        \<and> map_of d ''t1'' = Some [''pre'' \<mapsto> pre, ''post'' \<mapsto> post]
        \<and> fset pre = {''p1''} \<and> fset post = {''p2''})"
proof -
  let ?net = "\<lparr>places = [(''p1'', \<lparr>place_id = ''p1'', initial_marking = 1\<rparr>),
                (''p2'', \<lparr>place_id = ''p2'', initial_marking = 0\<rparr>)],
      transitions = [(''t1'', ())],
      arcs = [\<lparr>source = ''p1'', target = ''t1''\<rparr>, \<lparr>source = ''t1'', target = ''p2''\<rparr>,
              \<lparr>source = ''p1'', target = ''p2''\<rparr>, \<lparr>source = ''zz'', target = ''t1''\<rparr>]\<rparr>"
  have tr: "is_transition ?net ''t1''" by (simp add: is_transition_def)
  from convert_net_to_bfs_format_table[of ?net] obtain init d where
    c: "convert_net_to_bfs_format ?net = Inr (init, d)"
    and i: "fset init = {place_id p | p. p \<in> snd ` set (places ?net) \<and> initial_marking p > 0}"
    and t: "\<forall>t. is_transition ?net t \<longrightarrow>
          (\<exists>pre post. map_of d t = Some [''pre'' \<mapsto> pre, ''post'' \<mapsto> post]
             \<and> fset pre = {source a | a. a \<in> set (arcs ?net) \<and> is_place ?net (source a)
                             \<and> target a = t}
             \<and> fset post = {target a | a. a \<in> set (arcs ?net) \<and> source a = t
                             \<and> is_place ?net (target a)
                             \<and> \<not> (is_place ?net t \<and> is_transition ?net (target a))})"
    by (elim exE conjE) (rule that)
  from t[rule_format, OF tr] obtain pre post where
    m: "map_of d ''t1'' = Some [''pre'' \<mapsto> pre, ''post'' \<mapsto> post]"
    and p: "fset pre = {source a | a. a \<in> set (arcs ?net) \<and> is_place ?net (source a)
                             \<and> target a = ''t1''}"
    and q: "fset post = {target a | a. a \<in> set (arcs ?net) \<and> source a = ''t1''
                             \<and> is_place ?net (target a)
                             \<and> \<not> (is_place ?net ''t1'' \<and> is_transition ?net (target a))}"
    by (elim exE conjE) (rule that)
  have i': "fset init = {''p1''}" unfolding i
    by (auto intro: exI[of _ "\<lparr>place_id = ''p1'', initial_marking = 1\<rparr>"])
  have p': "fset pre = {''p1''}" unfolding p
    by (auto simp: is_place_def intro: exI[of _ "\<lparr>source = ''p1'', target = ''t1''\<rparr>"])
  have q': "fset post = {''p2''}" unfolding q
    by (auto simp: is_place_def is_transition_def
        intro: exI[of _ "\<lparr>source = ''t1'', target = ''p2''\<rparr>"])
  have "\<exists>init d pre post. convert_net_to_bfs_format ?net = Inr (init, d)
        \<and> fset init = {''p1''}
        \<and> map_of d ''t1'' = Some [''pre'' \<mapsto> pre, ''post'' \<mapsto> post]
        \<and> fset pre = {''p1''} \<and> fset post = {''p2''}"
    using c i' m p' q' by (intro exI conjI)
  with tr show ?thesis by (rule conjI)
qed

theorem engine_leaves_arguments_unchanged_witness:
  "heap_ok
     [SetObj {|''p1''|}, SetObj {|''p2''|}, InfoObj [''pre'' \<mapsto> 0, ''post'' \<mapsto> 1],
      InfoObj [''pre'' \<mapsto> 1, ''post'' \<mapsto> 0], TableObj [(''t1'', 2), (''t2'', 3)]] 0 4
   \<and> (\<exists>h' R. find_reachable_markings_bfs_heap
         [SetObj {|''p1''|}, SetObj {|''p2''|}, InfoObj [''pre'' \<mapsto> 0, ''post'' \<mapsto> 1],
          InfoObj [''pre'' \<mapsto> 1, ''post'' \<mapsto> 0], TableObj [(''t1'', 2), (''t2'', 3)]] 0 4
         = Some (h', Inr 5)
       \<and> take 5 h' =
         [SetObj {|''p1''|}, SetObj {|''p2''|}, InfoObj [''pre'' \<mapsto> 0, ''post'' \<mapsto> 1],
          InfoObj [''pre'' \<mapsto> 1, ''post'' \<mapsto> 0], TableObj [(''t1'', 2), (''t2'', 3)]]
       \<and> get_visited h' 5 = Inr R)"
proof -
  let ?h = "[SetObj {|''p1''|}, SetObj {|''p2''|}, InfoObj [''pre'' \<mapsto> 0, ''post'' \<mapsto> 1],
      InfoObj [''pre'' \<mapsto> 1, ''post'' \<mapsto> 0], TableObj [(''t1'', 2), (''t2'', 3)]]
      :: (string, string) heap"
  have ok: "heap_ok ?h 0 4"
    by (simp add: heap_ok_def is_set_def info_ok_def get_set_def get_info_def get_table_def
        deref_def)
  from engine_leaves_arguments_unchanged[of ?h 0 4, THEN conjunct2, rule_format, OF ok]
  obtain h' R where
    "find_reachable_markings_bfs_heap ?h 0 4 = Some (h', Inr (length ?h))"
    "take (length ?h) h' = ?h" "get_visited h' (length ?h) = Inr R"
    by (elim exE conjE) (rule that)
  then have "\<exists>h' R. find_reachable_markings_bfs_heap ?h 0 4 = Some (h', Inr 5)
       \<and> take 5 h' = ?h \<and> get_visited h' 5 = Inr R"
    by (intro exI[of _ h'] exI[of _ R]) (simp add: eval_nat_numeral)
  with ok show ?thesis by (rule conjI)
qed

end
